theory Spec2Isabelle
  imports Main "HOL-Library.Multiset"
begin

section \<open>Python values, exceptions and sequences\<close>

text \<open>
  Every \<^verbatim>\<open>raise\<close> and failed \<^verbatim>\<open>assert\<close> of the two scripts is a value: a computation
  returns \<open>error + 'a\<close>, with \<open>Inl\<close> the exception that ends it.
\<close>

datatype error = AssertionError | AttributeError | IndexError | KeyError | TypeError | ValueError

definition ebind :: "error + 'a \<Rightarrow> ('a \<Rightarrow> error + 'b) \<Rightarrow> error + 'b" where
  "ebind m f = (case m of Inl e \<Rightarrow> Inl e | Inr x \<Rightarrow> f x)"

text \<open>
  \<^verbatim>\<open>xs[i]\<close> on a tuple or list: a negative index counts from the end, an index out of
  range raises IndexError. \<^verbatim>\<open>xs[i] = v\<close> on a list follows the same rule.
\<close>

definition wrap_index :: "nat \<Rightarrow> int \<Rightarrow> nat option" where
  "wrap_index len i =
     (if 0 \<le> i \<and> i < int len then Some (nat i)
      else if - int len \<le> i \<and> i < 0 then Some (nat (int len + i))
      else None)"

definition index :: "'a list \<Rightarrow> int \<Rightarrow> error + 'a" where
  "index xs i = (case wrap_index (length xs) i of None \<Rightarrow> Inl IndexError | Some k \<Rightarrow> Inr (xs ! k))"

definition setitem :: "'a list \<Rightarrow> int \<Rightarrow> 'a \<Rightarrow> error + 'a list" where
  "setitem xs i v =
     (case wrap_index (length xs) i of None \<Rightarrow> Inl IndexError | Some k \<Rightarrow> Inr (xs[k := v]))"

text \<open>
  A \<^verbatim>\<open>for\<close> loop that appends one computed element per item: the elements in order, or
  the first exception.
\<close>

fun emap :: "('a \<Rightarrow> error + 'b) \<Rightarrow> 'a list \<Rightarrow> error + 'b list" where
  "emap f [] = Inr []"
| "emap f (x # xs) =
     (case f x of
        Inl e \<Rightarrow> Inl e
      | Inr y \<Rightarrow> (case emap f xs of Inl e \<Rightarrow> Inl e | Inr ys \<Rightarrow> Inr (y # ys)))"

section \<open>The puzzle: tiles and grids\<close>

text \<open>
  \<^verbatim>\<open>class Domino\<close> has four integer fields and defines neither \<^verbatim>\<open>__eq__\<close> nor
  \<^verbatim>\<open>__hash__\<close>, so Python compares and hashes tiles by object identity. The field
  \<open>ident\<close> is that identity: two tiles are the same object iff their records are equal,
  the four sides of an object never changing after its construction. The field
  \<^verbatim>\<open>top\<close> is written \<open>top_side\<close> (HOL has a constant \<open>top\<close>).
\<close>

record Domino =
  ident :: nat
  top_side :: int
  right :: int
  bottom :: int
  left :: int

definition is_above :: "Domino \<Rightarrow> Domino \<Rightarrow> bool" where
  "is_above self other = (bottom self = top_side other)"

definition is_under :: "Domino \<Rightarrow> Domino \<Rightarrow> bool" where
  "is_under self other = (top_side self = bottom other)"

definition is_on_the_left_of :: "Domino \<Rightarrow> Domino \<Rightarrow> bool" where
  "is_on_the_left_of self other = (right self = left other)"

definition is_on_the_right_of :: "Domino \<Rightarrow> Domino \<Rightarrow> bool" where
  "is_on_the_right_of self other = (left self = right other)"

text \<open>
  A state is a tuple of rows, each a tuple of tiles; an action is a pair of grid
  coordinates \<^verbatim>\<open>((r1, c1), (r2, c2))\<close>.
\<close>

type_synonym grid = "Domino list list"

type_synonym action = "(int \<times> int) \<times> (int \<times> int)"

section \<open>The puzzle of m3project\_UninformedSearch.py\<close>

text \<open>
  A \<^verbatim>\<open>FourDominoes\<close> object holds \<^verbatim>\<open>self.N\<close> and \<^verbatim>\<open>self.state\<close>.
\<close>

record FourDominoes =
  self_N :: int
  self_state :: grid

text \<open>
  \<^verbatim>\<open>__init__(self, N, state=None)\<close>. With no state the constructor draws a random grid;
  the grid drawn is the argument \<open>rnd\<close>.
\<close>

definition FourDominoes_init :: "int \<Rightarrow> grid option \<Rightarrow> grid \<Rightarrow> error + FourDominoes" where
  "FourDominoes_init n st rnd =
     (if \<not> (n \<ge> 2 \<and> n \<le> 4) then Inl AssertionError
      else case st of
        Some s \<Rightarrow>
          if int (length s) \<noteq> n then Inl AssertionError
          else if \<not> list_all (\<lambda>row. int (length row) = n) s then Inl AssertionError
          else Inr \<lparr>self_N = n, self_state = s\<rparr>
      | None \<Rightarrow> Inr \<lparr>self_N = n, self_state = rnd\<rparr>)"

text \<open>
  \<^verbatim>\<open>move(self, action)\<close>: the assertion, the copy of the rows into lists, the tuple
  assignment (right-hand side first, then the two targets from left to right) and the
  new tuple of tuples stored in \<^verbatim>\<open>self.state\<close>.
\<close>

definition valid_action :: "int \<Rightarrow> action \<Rightarrow> bool" where
  "valid_action n a =
     (case a of ((r1, c1), (r2, c2)) \<Rightarrow>
        list_all (\<lambda>x. x \<ge> 0 \<and> x < n) [r1, c1, r2, c2])"

definition swap_tiles :: "grid \<Rightarrow> action \<Rightarrow> error + grid" where
  "swap_tiles temp a =
     (case a of ((r1, c1), (r2, c2)) \<Rightarrow>
        ebind (index temp r2) (\<lambda>row2.
        ebind (index row2 c2) (\<lambda>v1.
        ebind (index temp r1) (\<lambda>row1.
        ebind (index row1 c1) (\<lambda>v2.
        ebind (setitem row1 c1 v1) (\<lambda>row1'.
        ebind (setitem temp r1 row1') (\<lambda>temp1.
        ebind (index temp1 r2) (\<lambda>row2'.
        ebind (setitem row2' c2 v2) (\<lambda>row2''.
        setitem temp1 r2 row2'')))))))))"

definition move :: "FourDominoes \<Rightarrow> action \<Rightarrow> error + FourDominoes" where
  "move self a =
     (if \<not> valid_action (self_N self) a then Inl AssertionError
      else ebind (swap_tiles (self_state self) a) (\<lambda>temp. Inr (self\<lparr>self_state := temp\<rparr>)))"

text \<open>
  \<^verbatim>\<open>successor(self, state)\<close>: the two nested \<^verbatim>\<open>range\<close> loops visit the index pairs
  \<open>(i, j)\<close>, \<open>i < j\<close>, in lexicographic order; each builds a copy of the puzzle on the
  given state, moves it, and appends the action with the copy's state.
\<close>

definition index_pairs :: "int \<Rightarrow> (int \<times> int) list" where
  "index_pairs n = concat (map (\<lambda>i. map (\<lambda>j. (i, j)) [i + 1..n * n - 1]) [0..n * n - 1])"

definition action_of :: "int \<Rightarrow> int \<times> int \<Rightarrow> action" where
  "action_of n p = (case p of (i, j) \<Rightarrow> ((i div n, i mod n), (j div n, j mod n)))"

definition successor :: "FourDominoes \<Rightarrow> grid \<Rightarrow> error + (action \<times> grid) list" where
  "successor self st =
     emap (\<lambda>p.
        ebind (FourDominoes_init (self_N self) (Some st) []) (\<lambda>copy.
        ebind (move copy (action_of (self_N self) p)) (\<lambda>copy'.
        Inr (action_of (self_N self) p, self_state copy'))))
       (index_pairs (self_N self))"

text \<open>
  \<^verbatim>\<open>goal_test(self, state)\<close>: the cells in row-major order, returning False at the first
  tile that does not match the tile above it or the tile on its left.
\<close>

definition cell :: "grid \<Rightarrow> int \<Rightarrow> int \<Rightarrow> error + Domino" where
  "cell st i j = ebind (index st i) (\<lambda>row. index row j)"

fun goal_test_cells :: "grid \<Rightarrow> (int \<times> int) list \<Rightarrow> error + bool" where
  "goal_test_cells st [] = Inr True"
| "goal_test_cells st ((i, j) # ps) =
     (case (if i > 0
            then ebind (cell st i j) (\<lambda>t. ebind (cell st (i - 1) j) (\<lambda>u. Inr (\<not> is_under t u)))
            else Inr False) of
        Inl e \<Rightarrow> Inl e
      | Inr True \<Rightarrow> Inr False
      | Inr False \<Rightarrow>
          (case (if j > 0
                 then ebind (cell st i j) (\<lambda>t. ebind (cell st i (j - 1)) (\<lambda>u. Inr (\<not> is_on_the_right_of t u)))
                 else Inr False) of
             Inl e \<Rightarrow> Inl e
           | Inr True \<Rightarrow> Inr False
           | Inr False \<Rightarrow> goal_test_cells st ps))"

definition cells :: "int \<Rightarrow> (int \<times> int) list" where
  "cells n = concat (map (\<lambda>i. map (\<lambda>j. (i, j)) [0..n - 1]) [0..n - 1])"

definition goal_test :: "FourDominoes \<Rightarrow> grid \<Rightarrow> error + bool" where
  "goal_test self st = goal_test_cells st (cells (self_N self))"

section \<open>The depth-limited engine (class DepthLimitedDFS)\<close>

text \<open>
  The variables of \<^verbatim>\<open>DepthLimitedDFS.search\<close>. \<open>states_to_expand\<close> is the stack, kept top
  first: \<^verbatim>\<open>pop()\<close> takes the head and \<^verbatim>\<open>append\<close> conses. \<open>path\<close> and \<open>solution\<close> are in
  Python's order, \<^verbatim>\<open>pop()\<close> taking their last element. An action slot holds \<open>None\<close> for
  the start state, so it is an \<open>option\<close>.
\<close>

record ('s, 'a) dfs_vars =
  num_expanded_states :: int
  path :: "'s list"
  solution :: "'a option list"
  visited_states :: "'s set"
  states_to_expand :: "('s \<times> int \<times> 'a option) list"

text \<open>
  One iteration of a search loop either ends the search with its result or goes on with
  new variables.
\<close>

datatype ('r, 'v) outcome = Return 'r | Continue 'v

text \<open>
  The inner loop \<^verbatim>\<open>while len(solution) > depth\<close>: \<^verbatim>\<open>solution.pop()\<close> and \<^verbatim>\<open>path.pop()\<close>
  raise IndexError on an empty list, \<^verbatim>\<open>visited_states.remove\<close> raises KeyError on a
  state that is not in the set.
\<close>

function trim :: "int \<Rightarrow> ('s, 'a) dfs_vars \<Rightarrow> error + ('s, 'a) dfs_vars" where
  "trim depth v =
     (if int (length (solution v)) > depth
      then (if solution v = [] \<or> path v = [] then Inl IndexError
            else if last (path v) \<notin> visited_states v then Inl KeyError
            else trim depth (v\<lparr>solution := butlast (solution v), path := butlast (path v),
                   visited_states := visited_states v - {last (path v)}\<rparr>))
      else Inr v)"
  by pat_completeness auto
termination
  by (relation "measure (\<lambda>(depth, v). length (solution v))") (auto simp: less_Suc_eq_le[symmetric] intro: diff_less)

declare trim.simps [simp del]

text \<open>
  Accepting a popped entry: the path is trimmed to the entry's depth, then the entry is
  counted, marked visited and appended to \<open>solution\<close> and \<open>path\<close>.
\<close>

definition accept :: "'s \<Rightarrow> int \<Rightarrow> 'a option \<Rightarrow> ('s, 'a) dfs_vars \<Rightarrow> error + ('s, 'a) dfs_vars" where
  "accept st depth act v =
     ebind (trim depth v) (\<lambda>v'.
       Inr (v'\<lparr>num_expanded_states := num_expanded_states v' + 1,
              visited_states := insert st (visited_states v'),
              solution := solution v' @ [act],
              path := path v' @ [st]\<rparr>))"

text \<open>
  The loop \<^verbatim>\<open>for action, child in self.successor(state)\<close> appends one entry per
  successor, so the last successor ends on top of the stack.
\<close>

definition push_children :: "int \<Rightarrow> ('a \<times> 's) list \<Rightarrow> ('s \<times> int \<times> 'a option) list \<Rightarrow> ('s \<times> int \<times> 'a option) list" where
  "push_children depth succs stack = foldl (\<lambda>stk (act, child). (child, depth + 1, Some act) # stk) stack succs"

text \<open>
  One iteration of \<^verbatim>\<open>while states_to_expand\<close>, with the \<^verbatim>\<open>return\<close> after the loop as the
  case of the empty stack. The problem's \<^verbatim>\<open>successor\<close> and \<^verbatim>\<open>goal_test\<close> are the
  arguments \<open>succ\<close> and \<open>goal\<close>. The solution returned is \<^verbatim>\<open>solution[1:]\<close>.
\<close>

definition DFS_step ::
  "('s \<Rightarrow> error + ('a \<times> 's) list) \<Rightarrow> ('s \<Rightarrow> error + bool) \<Rightarrow> int \<Rightarrow> ('s, 'a) dfs_vars \<Rightarrow>
     error + ('a option list option \<times> int, ('s, 'a) dfs_vars) outcome" where
  "DFS_step succ goal limit v =
     (case states_to_expand v of
        [] \<Rightarrow> Inr (Return (None, num_expanded_states v))
      | (st, depth, act) # rest \<Rightarrow>
          if st \<in> visited_states v \<or> depth > limit
          then Inr (Continue (v\<lparr>states_to_expand := rest\<rparr>))
          else ebind (accept st depth act (v\<lparr>states_to_expand := rest\<rparr>)) (\<lambda>v'.
               ebind (goal st) (\<lambda>g.
                 if g then Inr (Return (Some (tl (solution v')), num_expanded_states v'))
                 else ebind (succ st) (\<lambda>succs.
                   Inr (Continue (v'\<lparr>states_to_expand := push_children depth succs (states_to_expand v')\<rparr>))))))"

text \<open>
  The loop terminates: an iteration replaces the top entry, of depth \<open>d\<close>, by entries of
  depth \<open>d + 1\<close>, and only when \<open>d \<le> limit\<close>. The multiset of the numbers
  \<open>limit + 1 - d\<close> over the stack decreases.
\<close>

definition weight :: "int \<Rightarrow> ('s, 'a) dfs_vars \<Rightarrow> nat multiset" where
  "weight limit v = mset (map (\<lambda>(st, depth, act). nat (limit + 1 - depth)) (states_to_expand v))"

lemma ebind_Inr_iff: "ebind m f = Inr y \<longleftrightarrow> (\<exists>x. m = Inr x \<and> f x = Inr y)"
  by (cases m) (simp_all add: ebind_def)

lemma trim_stack: "trim depth v = Inr v' \<Longrightarrow> states_to_expand v' = states_to_expand v"
  by (induction depth v rule: trim.induct) (subst (asm) trim.simps, auto split: if_splits)

lemma accept_stack: "accept st depth act v = Inr v' \<Longrightarrow> states_to_expand v' = states_to_expand v"
  by (auto simp: accept_def ebind_Inr_iff dest: trim_stack)

lemma push_children_rev:
  "push_children depth succs stack = rev (map (\<lambda>(act, child). (child, depth + 1, Some act)) succs) @ stack"
  unfolding push_children_def by (induction succs arbitrary: stack) (auto split: prod.splits)

lemma mult1_step:
  "M = add_mset a M0 \<Longrightarrow> N = M0 + K \<Longrightarrow> (\<And>b. b \<in># K \<Longrightarrow> (b, a) \<in> r) \<Longrightarrow> (N, M) \<in> mult1 r"
  unfolding mult1_def by blast

lemma DFS_step_decreases:
  fixes v :: "('s, 'a) dfs_vars"
  assumes "DFS_step succ goal limit v = Inr (Continue v')"
  shows "(weight limit v', weight limit v) \<in> mult1 less_than"
proof (cases "states_to_expand v")
  case Nil
  with assms show ?thesis by (simp add: DFS_step_def)
next
  case (Cons e rest)
  obtain st depth act where e: "e = (st, depth, act)" by (cases e)
  define w where "w = (\<lambda>(st::'s, depth, act::'a option). nat (limit + 1 - depth))"
  have wdef: "weight limit u = mset (map w (states_to_expand u))" for u :: "('s, 'a) dfs_vars"
    by (simp add: weight_def w_def)
  have wv: "weight limit v = add_mset (w e) (mset (map w rest))"
    by (simp add: wdef Cons)
  show ?thesis
  proof (cases "st \<in> visited_states v \<or> depth > limit")
    case True
    with assms Cons e have "v' = v\<lparr>states_to_expand := rest\<rparr>" by (auto simp: DFS_step_def)
    then have "weight limit v' = mset (map w rest) + {#}" by (simp add: wdef)
    with wv show ?thesis by (auto intro: mult1_step)
  next
    case False
    with assms Cons e obtain v1 succs where
      a: "accept st depth act (v\<lparr>states_to_expand := rest\<rparr>) = Inr v1" and
      v': "v' = v1\<lparr>states_to_expand := push_children depth succs (states_to_expand v1)\<rparr>"
      by (auto simp: DFS_step_def ebind_Inr_iff split: if_splits)
    have st1: "states_to_expand v1 = rest" using accept_stack[OF a] by simp
    define K where "K = mset (map w (rev (map (\<lambda>(act, child). (child, depth + 1, Some act)) succs)))"
    have "weight limit v' = mset (map w rest) + K"
      by (simp add: wdef v' st1 push_children_rev K_def del: mset_map mset_rev map_map rev_map)
    moreover have "\<And>b. b \<in># K \<Longrightarrow> (b, w e) \<in> less_than"
      using False by (auto simp: K_def w_def e)
    ultimately show ?thesis using wv by (auto intro: mult1_step)
  qed
qed

function DFS_loop ::
  "('s \<Rightarrow> error + ('a \<times> 's) list) \<Rightarrow> ('s \<Rightarrow> error + bool) \<Rightarrow> int \<Rightarrow> ('s, 'a) dfs_vars \<Rightarrow>
     error + ('a option list option \<times> int)" where
  "DFS_loop succ goal limit v =
     (case DFS_step succ goal limit v of
        Inl e \<Rightarrow> Inl e
      | Inr (Return r) \<Rightarrow> Inr r
      | Inr (Continue v') \<Rightarrow> DFS_loop succ goal limit v')"
  by pat_completeness auto
termination
proof (relation "inv_image (mult1 less_than) (\<lambda>(succ, goal, limit, v). weight limit v)")
  show "wf (inv_image (mult1 less_than) (\<lambda>(succ, goal, limit, v). weight limit v))"
    by (intro wf_inv_image wf_mult1 wf_less_than)
qed (simp add: DFS_step_decreases)

declare DFS_loop.simps [simp del]

text \<open>
  \<^verbatim>\<open>DepthLimitedDFS.search(state, limit)\<close>: the loop from the initial variables.
\<close>

definition DFS_initial :: "'s \<Rightarrow> ('s, 'a) dfs_vars" where
  "DFS_initial st =
     \<lparr>num_expanded_states = 0, path = [], solution = [], visited_states = {},
      states_to_expand = [(st, 0, None)]\<rparr>"

definition DepthLimitedDFS_search ::
  "('s \<Rightarrow> error + ('a \<times> 's) list) \<Rightarrow> ('s \<Rightarrow> error + bool) \<Rightarrow> 's \<Rightarrow> int \<Rightarrow>
     error + ('a option list option \<times> int)" where
  "DepthLimitedDFS_search succ goal st limit = DFS_loop succ goal limit (DFS_initial st)"

section \<open>The iterative deepening driver (class IterativeDeepening)\<close>

text \<open>
  \<^verbatim>\<open>IterativeDeepening.search(state)\<close>, with its constants \<^verbatim>\<open>max_limit = 3\<close> and 50000.
  The loop's variables are arguments. After each depth-limited call the driver compares
  the count with the previous call's, then adds it to the total, calls
  \<^verbatim>\<open>self.successor(state)\<close> for its length (an exception of that call ends the search),
  and only then looks at the solution.
\<close>

definition max_limit :: int where
  "max_limit = 3"

function IDS_loop ::
  "('s \<Rightarrow> error + ('a \<times> 's) list) \<Rightarrow> ('s \<Rightarrow> error + bool) \<Rightarrow> 's \<Rightarrow> int \<Rightarrow> int \<Rightarrow> int \<Rightarrow>
     error + ('a option list option \<times> int)" where
  "IDS_loop succ goal st total_expanded_states last_expanded_states limit =
     (if limit \<le> max_limit
      then (if total_expanded_states \<ge> 50000 then Inr (None, total_expanded_states)
            else case DepthLimitedDFS_search succ goal st limit of
              Inl e \<Rightarrow> Inl e
            | Inr (sol, num) \<Rightarrow>
                if num = last_expanded_states then Inr (None, total_expanded_states)
                else (case succ st of
                  Inl e \<Rightarrow> Inl e
                | Inr succs \<Rightarrow>
                    (case sol of
                       Some acts \<Rightarrow> Inr (Some acts, total_expanded_states + num)
                     | None \<Rightarrow> IDS_loop succ goal st (total_expanded_states + num) num (limit + 1))))
      else Inr (None, total_expanded_states))"
  by pat_completeness auto
termination
  by (relation "measure (\<lambda>(succ, goal, st, total, last, limit). nat (max_limit + 1 - limit))") auto

declare IDS_loop.simps [simp del]

definition IterativeDeepening_search ::
  "('s \<Rightarrow> error + ('a \<times> 's) list) \<Rightarrow> ('s \<Rightarrow> error + bool) \<Rightarrow> 's \<Rightarrow> error + ('a option list option \<times> int)" where
  "IterativeDeepening_search succ goal st = IDS_loop succ goal st 0 (- 1) 0"

section \<open>The A* engine (class Astar)\<close>

text \<open>
  Priorities are integers or \<^verbatim>\<open>math.inf\<close> (the seed priority of the start state).
\<close>

datatype number = Finite int | Infinity

fun number_lt :: "number \<Rightarrow> number \<Rightarrow> bool" where
  "number_lt (Finite a) (Finite b) = (a < b)"
| "number_lt (Finite a) Infinity = True"
| "number_lt Infinity b = False"

text \<open>
  What \<^verbatim>\<open>successor\<close> may return to the A* engine: pairs \<^verbatim>\<open>(action, state)\<close>, as the
  docstrings say and the puzzle returns, or the 4-tuples
  \<^verbatim>\<open>(action, child, act_cost, heur_cost)\<close> that the engine's loop unpacks.
\<close>

datatype ('a, 's) item = Pair2 'a 's | Tuple4 'a 's int int

text \<open>
  A frontier entry \<^verbatim>\<open>(heur_cost, path_cost, state, parent, action)\<close>. The problem object
  gives the engine \<^verbatim>\<open>successor\<close>, \<^verbatim>\<open>goal_test\<close> and \<^verbatim>\<open>heuristicfunction\<close>; the
  priority queue compares entries as Python compares tuples, so the problem also fixes
  what \<^verbatim>\<open><\<close> does on two different states and on two different actions.
\<close>

type_synonym ('s, 'a) entry = "number \<times> int \<times> 's \<times> int \<times> 'a option"

record ('s, 'a) problem =
  successor_of :: "'s \<Rightarrow> error + ('a, 's) item list"
  goal_test_of :: "'s \<Rightarrow> error + bool"
  heuristicfunction_of :: "'s \<Rightarrow> error + int"
  state_lt :: "'s \<Rightarrow> 's \<Rightarrow> error + bool"
  action_lt :: "'a \<Rightarrow> 'a \<Rightarrow> error + bool"

text \<open>
  \<^verbatim>\<open>e1 < e2\<close> on two entries: the first component in which they differ decides. The
  action of the start entry is \<^verbatim>\<open>None\<close>, which Python cannot order against a tuple.
\<close>

fun entry_lt :: "('s, 'a) problem \<Rightarrow> ('s, 'a) entry \<Rightarrow> ('s, 'a) entry \<Rightarrow> error + bool" where
  "entry_lt P (f1, g1, s1, p1, a1) (f2, g2, s2, p2, a2) =
     (if f1 \<noteq> f2 then Inr (number_lt f1 f2)
      else if g1 \<noteq> g2 then Inr (g1 < g2)
      else if s1 \<noteq> s2 then state_lt P s1 s2
      else if p1 \<noteq> p2 then Inr (p1 < p2)
      else if a1 \<noteq> a2 then
        (case (a1, a2) of (Some x, Some y) \<Rightarrow> action_lt P x y | _ \<Rightarrow> Inl TypeError)
      else Inr False)"

text \<open>
  \<^verbatim>\<open>queue.PriorityQueue\<close> keeps its entries in a list ordered as a binary heap by the
  module \<^verbatim>\<open>heapq\<close>: \<^verbatim>\<open>put\<close> is \<^verbatim>\<open>heappush\<close> and \<^verbatim>\<open>get\<close> is \<^verbatim>\<open>heappop\<close>. The functions below
  follow \<^verbatim>\<open>heapq._siftdown\<close>, \<^verbatim>\<open>heapq._siftup\<close>, \<^verbatim>\<open>heappush\<close> and \<^verbatim>\<open>heappop\<close>, with the
  comparison \<open>lt\<close> of the elements as an argument that may raise. All positions they
  read are inside the list.
\<close>

function siftdown_loop ::
  "('e \<Rightarrow> 'e \<Rightarrow> error + bool) \<Rightarrow> 'e list \<Rightarrow> nat \<Rightarrow> nat \<Rightarrow> 'e \<Rightarrow> error + 'e list" where
  "siftdown_loop lt heap startpos pos newitem =
     (if pos > startpos
      then (let parentpos = (pos - 1) div 2; parent = heap ! parentpos
            in case lt newitem parent of
                 Inl e \<Rightarrow> Inl e
               | Inr True \<Rightarrow> siftdown_loop lt (heap[pos := parent]) startpos parentpos newitem
               | Inr False \<Rightarrow> Inr (heap[pos := newitem]))
      else Inr (heap[pos := newitem]))"
  by pat_completeness auto
termination
  by (relation "measure (\<lambda>(lt, heap, startpos, pos, newitem). pos)") auto

declare siftdown_loop.simps [simp del]

definition siftdown :: "('e \<Rightarrow> 'e \<Rightarrow> error + bool) \<Rightarrow> 'e list \<Rightarrow> nat \<Rightarrow> nat \<Rightarrow> error + 'e list" where
  "siftdown lt heap startpos pos = siftdown_loop lt heap startpos pos (heap ! pos)"

function siftup_loop ::
  "('e \<Rightarrow> 'e \<Rightarrow> error + bool) \<Rightarrow> 'e list \<Rightarrow> nat \<Rightarrow> nat \<Rightarrow> error + ('e list \<times> nat)" where
  "siftup_loop lt heap endpos pos =
     (let childpos = 2 * pos + 1
      in if childpos < endpos
         then (let rightpos = childpos + 1
               in case (if rightpos < endpos
                        then ebind (lt (heap ! childpos) (heap ! rightpos)) (\<lambda>b. Inr (\<not> b))
                        else Inr False) of
                    Inl e \<Rightarrow> Inl e
                  | Inr True \<Rightarrow> siftup_loop lt (heap[pos := heap ! rightpos]) endpos rightpos
                  | Inr False \<Rightarrow> siftup_loop lt (heap[pos := heap ! childpos]) endpos childpos)
         else Inr (heap, pos))"
  by pat_completeness auto
termination
  by (relation "measure (\<lambda>(lt, heap, endpos, pos). endpos - pos)") (auto simp: Let_def)

declare siftup_loop.simps [simp del]

definition siftup :: "('e \<Rightarrow> 'e \<Rightarrow> error + bool) \<Rightarrow> 'e list \<Rightarrow> nat \<Rightarrow> error + 'e list" where
  "siftup lt heap pos =
     (let newitem = heap ! pos
      in ebind (siftup_loop lt heap (length heap) pos) (\<lambda>(heap', pos').
           siftdown lt (heap'[pos' := newitem]) pos pos'))"

definition heappush :: "('e \<Rightarrow> 'e \<Rightarrow> error + bool) \<Rightarrow> 'e list \<Rightarrow> 'e \<Rightarrow> error + 'e list" where
  "heappush lt heap item = siftdown lt (heap @ [item]) 0 (length heap)"

definition heappop :: "('e \<Rightarrow> 'e \<Rightarrow> error + bool) \<Rightarrow> 'e list \<Rightarrow> error + ('e \<times> 'e list)" where
  "heappop lt heap =
     (if heap = [] then Inl IndexError
      else (let lastelt = last heap; heap' = butlast heap
            in if heap' \<noteq> []
               then ebind (siftup lt (heap'[0 := lastelt]) 0) (\<lambda>h. Inr (heap' ! 0, h))
               else Inr (lastelt, [])))"

text \<open>
  The variables of \<^verbatim>\<open>Astar.search\<close>: \<open>num_expanded\<close> is \<^verbatim>\<open>num_expanded_states\<close>,
  \<open>visited\<close> is \<^verbatim>\<open>visited_states\<close> and \<open>frontier\<close> is the heap of \<^verbatim>\<open>states_to_expand\<close>.
\<close>

record ('s, 'a) astar_vars =
  num_expanded :: int
  expanded_states :: "(int \<times> 'a option) list"
  visited :: "'s set"
  frontier :: "('s, 'a) entry list"

text \<open>
  The loop \<^verbatim>\<open>for action, child, act_cost, heur_cost in self.successor(state)\<close>: a pair
  cannot be unpacked into four names (ValueError). The two costs unpacked are
  overwritten at once: \<^verbatim>\<open>heur_cost\<close> by the heuristic of the child, \<^verbatim>\<open>path_cost\<close> and
  \<^verbatim>\<open>act_cost\<close> by 1. \<open>num\<close> is \<^verbatim>\<open>num_expanded_states\<close>.
\<close>

fun put_children ::
  "('s, 'a) problem \<Rightarrow> int \<Rightarrow> ('a, 's) item list \<Rightarrow> ('s, 'a) entry list \<Rightarrow> error + ('s, 'a) entry list" where
  "put_children P num [] heap = Inr heap"
| "put_children P num (Pair2 act child # items) heap = Inl ValueError"
| "put_children P num (Tuple4 act child act_cost0 heur_cost0 # items) heap =
     (case heuristicfunction_of P child of
        Inl e \<Rightarrow> Inl e
      | Inr heur_cost \<Rightarrow>
          (let path_cost = 1; act_cost = 1
           in case heappush (entry_lt P) heap
                     (Finite (heur_cost + act_cost + path_cost), act_cost + path_cost, child, num - 1, Some act) of
                Inl e \<Rightarrow> Inl e
              | Inr heap' \<Rightarrow> put_children P num items heap'))"

text \<open>
  One iteration of \<^verbatim>\<open>while not states_to_expand.empty()\<close>: the frontier is empty (the
  \<^verbatim>\<open>return\<close> after the loop), the popped state is a goal (with the popped cost, parent
  and action, from which the solution is read back), or the loop goes on.
\<close>

datatype ('s, 'a) astar_outcome =
    Exhausted int
  | Goal int int "'a option" "('s, 'a) astar_vars"
  | Next "('s, 'a) astar_vars"

definition astar_step :: "('s, 'a) problem \<Rightarrow> ('s, 'a) astar_vars \<Rightarrow> error + ('s, 'a) astar_outcome" where
  "astar_step P v =
     (if frontier v = [] then Inr (Exhausted (num_expanded v))
      else ebind (heappop (entry_lt P) (frontier v)) (\<lambda>((heur_cost, path_cost, st, parent, act), heap).
        if st \<in> visited v then Inr (Next (v\<lparr>frontier := heap\<rparr>))
        else (let v' = v\<lparr>num_expanded := num_expanded v + 1,
                          visited := insert st (visited v),
                          expanded_states := expanded_states v @ [(parent, act)],
                          frontier := heap\<rparr>
              in ebind (goal_test_of P st) (\<lambda>g.
                   if g then Inr (Goal path_cost parent act v')
                   else ebind (successor_of P st) (\<lambda>items.
                        ebind (put_children P (num_expanded v') items heap) (\<lambda>heap'.
                        Inr (Next (v'\<lparr>frontier := heap'\<rparr>))))))))"

text \<open>
  The loop \<^verbatim>\<open>while parent != -1\<close> that reads the solution back through
  \<^verbatim>\<open>expanded_states\<close>, and \<^verbatim>\<open>solution.reverse()\<close>. Nothing in its text bounds it, and
  the outer loop need not end on an infinite state space: both are partial functions,
  \<open>None\<close> standing for a run that does not return.
\<close>

partial_function (option) reconstruct ::
  "(int \<times> 'a option) list \<Rightarrow> int \<Rightarrow> 'a option \<Rightarrow> 'a option list \<Rightarrow> (error + 'a option list) option" where
  "reconstruct expanded parent act sol =
     (if parent \<noteq> - 1
      then (case index expanded parent of
              Inl e \<Rightarrow> Some (Inl e)
            | Inr (parent', act') \<Rightarrow> reconstruct expanded parent' act' (sol @ [act]))
      else Some (Inr (rev sol)))"

declare reconstruct.simps [code]

partial_function (option) astar_loop ::
  "('s, 'a) problem \<Rightarrow> ('s, 'a) astar_vars \<Rightarrow> (error + ('a option list option \<times> number \<times> int)) option" where
  "astar_loop P v =
     (case astar_step P v of
        Inl e \<Rightarrow> Some (Inl e)
      | Inr (Exhausted num) \<Rightarrow> Some (Inr (None, Infinity, num))
      | Inr (Goal path_cost parent act v') \<Rightarrow>
          (case reconstruct (expanded_states v') parent act [] of
             None \<Rightarrow> None
           | Some (Inl e) \<Rightarrow> Some (Inl e)
           | Some (Inr sol) \<Rightarrow> Some (Inr (Some sol, Finite path_cost, num_expanded v')))
      | Inr (Next v') \<Rightarrow> astar_loop P v')"

declare astar_loop.simps [code]

text \<open>
  \<^verbatim>\<open>Astar.search(state)\<close>: the start entry is put on the empty queue, with priority
  \<^verbatim>\<open>math.inf\<close>, cost 0, parent -1 and no action. The result is the solution (or
  \<^verbatim>\<open>None\<close>), the cost and the number of expanded states.
\<close>

definition Astar_search ::
  "('s, 'a) problem \<Rightarrow> 's \<Rightarrow> (error + ('a option list option \<times> number \<times> int)) option" where
  "Astar_search P st =
     (case heappush (entry_lt P) [] (Infinity, 0, st, - 1, None) of
        Inl e \<Rightarrow> Some (Inl e)
      | Inr heap \<Rightarrow>
          astar_loop P \<lparr>num_expanded = 0, expanded_states = [], visited = {}, frontier = heap\<rparr>)"

section \<open>The puzzle of m3project-InformedSearch.py\<close>

text \<open>
  The puzzle class of the informed script has the fields of the uninformed one and
  \<^verbatim>\<open>self.goal_state\<close>, an attribute that only the random branch of the constructor sets:
  \<open>None\<close> is the attribute missing. The constructor ignores its \<^verbatim>\<open>goal_state\<close>
  argument; \<open>rnd\<close> is the pair of grids \<^verbatim>\<open>__get_random_state\<close> draws.
\<close>

record FourDominoes_I = FourDominoes +
  self_goal_state :: "grid option"

definition FourDominoes_I_init ::
  "int \<Rightarrow> grid option \<Rightarrow> grid option \<Rightarrow> grid \<times> grid \<Rightarrow> error + FourDominoes_I" where
  "FourDominoes_I_init n st goal_arg rnd =
     (if \<not> (n \<ge> 2 \<and> n \<le> 4) then Inl AssertionError
      else case st of
        Some s \<Rightarrow>
          if int (length s) \<noteq> n then Inl AssertionError
          else if \<not> list_all (\<lambda>row. int (length row) = n) s then Inl AssertionError
          else Inr \<lparr>self_N = n, self_state = s, self_goal_state = None\<rparr>
      | None \<Rightarrow> Inr \<lparr>self_N = n, self_state = fst rnd, self_goal_state = Some (snd rnd)\<rparr>)"

text \<open>
  \<^verbatim>\<open>Astar.heuristicfunction(self, state)\<close>: for each cell it reads \<^verbatim>\<open>state[i][j]\<close>, then
  \<^verbatim>\<open>self.goal_state\<close> (AttributeError when missing), then the goal's cell, and counts
  the cells whose tiles differ.
\<close>

fun count_mismatches :: "grid \<Rightarrow> grid option \<Rightarrow> (int \<times> int) list \<Rightarrow> int \<Rightarrow> error + int" where
  "count_mismatches st gs [] tilecount = Inr tilecount"
| "count_mismatches st gs ((i, j) # ps) tilecount =
     (case cell st i j of
        Inl e \<Rightarrow> Inl e
      | Inr t \<Rightarrow>
          (case gs of
             None \<Rightarrow> Inl AttributeError
           | Some g \<Rightarrow>
               (case cell g i j of
                  Inl e \<Rightarrow> Inl e
                | Inr u \<Rightarrow> count_mismatches st gs ps (if t \<noteq> u then tilecount + 1 else tilecount))))"

definition heuristicfunction :: "FourDominoes_I \<Rightarrow> grid \<Rightarrow> error + int" where
  "heuristicfunction self st = count_mismatches st (self_goal_state self) (cells (self_N self)) 0"

text \<open>
  \<^verbatim>\<open>move\<close> and \<^verbatim>\<open>goal_test\<close> have the text of the uninformed script. \<^verbatim>\<open>successor\<close>
  also computes \<^verbatim>\<open>copy.heuristicfunction(copy.state) + 1\<close> for every copy, and drops
  the value.
\<close>

definition move_I :: "FourDominoes_I \<Rightarrow> action \<Rightarrow> error + FourDominoes_I" where
  "move_I self a =
     (if \<not> valid_action (self_N self) a then Inl AssertionError
      else ebind (swap_tiles (self_state self) a) (\<lambda>temp. Inr (self\<lparr>self_state := temp\<rparr>)))"

definition successor_I :: "FourDominoes_I \<Rightarrow> grid \<Rightarrow> error + (action, grid) item list" where
  "successor_I self st =
     emap (\<lambda>p.
        ebind (FourDominoes_I_init (self_N self) (Some st) None ([], [])) (\<lambda>copy.
        ebind (move_I copy (action_of (self_N self) p)) (\<lambda>copy'.
        ebind (heuristicfunction copy' (self_state copy')) (\<lambda>h.
        let cost = h + 1 in Inr (Pair2 (action_of (self_N self) p) (self_state copy'))))))
       (index_pairs (self_N self))"

definition goal_test_I :: "FourDominoes_I \<Rightarrow> grid \<Rightarrow> error + bool" where
  "goal_test_I self st = goal_test_cells st (cells (self_N self))"

text \<open>
  Python's \<^verbatim>\<open><\<close> on the puzzle's states and actions. Tuples are compared at the first
  position where they differ, or by length; \<^verbatim>\<open>Domino\<close> defines no order, so comparing
  two different tiles raises TypeError.
\<close>

fun tuple_lt :: "('a \<Rightarrow> 'a \<Rightarrow> error + bool) \<Rightarrow> 'a list \<Rightarrow> 'a list \<Rightarrow> error + bool" where
  "tuple_lt lt [] [] = Inr False"
| "tuple_lt lt [] (y # ys) = Inr True"
| "tuple_lt lt (x # xs) [] = Inr False"
| "tuple_lt lt (x # xs) (y # ys) = (if x \<noteq> y then lt x y else tuple_lt lt xs ys)"

definition Domino_lt :: "Domino \<Rightarrow> Domino \<Rightarrow> error + bool" where
  "Domino_lt t u = Inl TypeError"

definition coord_lt :: "int \<times> int \<Rightarrow> int \<times> int \<Rightarrow> bool" where
  "coord_lt p q = (fst p < fst q \<or> (fst p = fst q \<and> snd p < snd q))"

definition swap_lt :: "action \<Rightarrow> action \<Rightarrow> error + bool" where
  "swap_lt a b = Inr (coord_lt (fst a) (fst b) \<or> (fst a = fst b \<and> coord_lt (snd a) (snd b)))"

definition FourDominoes_problem :: "FourDominoes_I \<Rightarrow> (grid, action) problem" where
  "FourDominoes_problem self =
     \<lparr>successor_of = successor_I self,
      goal_test_of = goal_test_I self,
      heuristicfunction_of = heuristicfunction self,
      state_lt = tuple_lt (tuple_lt Domino_lt),
      action_lt = swap_lt\<rparr>"

section \<open>Specification predicates\<close>

text \<open>
  A grid is square of side \<open>n\<close> when it has \<open>n\<close> rows of \<open>n\<close> tiles: what the constructor
  asserts of a given state. A puzzle object is well formed when its size is one the
  constructor admits and its state is square.
\<close>

definition square :: "int \<Rightarrow> grid \<Rightarrow> bool" where
  "square n st = (int (length st) = n \<and> list_all (\<lambda>row. int (length row) = n) st)"

definition well_formed :: "FourDominoes \<Rightarrow> bool" where
  "well_formed self = (2 \<le> self_N self \<and> self_N self \<le> 4 \<and> square (self_N self) (self_state self))"

text \<open>
  The grid \<open>swap_tiles\<close> computes on a square grid, without the range checks.
\<close>

definition swapped :: "grid \<Rightarrow> action \<Rightarrow> grid" where
  "swapped st a =
     (case a of ((r1, c1), (r2, c2)) \<Rightarrow>
        let t1 = st[nat r1 := (st ! nat r1)[nat c1 := st ! nat r2 ! nat c2]]
        in t1[nat r2 := (t1 ! nat r2)[nat c2 := st ! nat r1 ! nat c1]])"

text \<open>
  \<open>position n p\<close>: \<open>p\<close> is a cell of the grid. \<open>tiles_swapped n st a st'\<close>: \<open>st'\<close> is square and
  is \<open>st\<close> with the tiles at the two cells of \<open>a\<close> exchanged, every other cell unchanged.
  \<open>ends s\<close> is the unordered pair of cells a successor's action names.
\<close>

definition position :: "int \<Rightarrow> int \<times> int \<Rightarrow> bool" where
  "position n p = (case p of (r, c) \<Rightarrow> 0 \<le> r \<and> r < n \<and> 0 \<le> c \<and> c < n)"

definition tiles_swapped :: "int \<Rightarrow> grid \<Rightarrow> action \<Rightarrow> grid \<Rightarrow> bool" where
  "tiles_swapped n st a st' =
     (square n st' \<and>
      (\<forall>r c. position n (r, c) \<longrightarrow>
         cell st' r c =
           (if (r, c) = fst a then cell st (fst (snd a)) (snd (snd a))
            else if (r, c) = snd a then cell st (fst (fst a)) (snd (fst a))
            else cell st r c)))"

definition ends :: "action \<times> grid \<Rightarrow> (int \<times> int) set" where
  "ends s = {fst (fst s), snd (fst s)}"

text \<open>
  The states of the depth-limited loop. \<open>DFS_reachable succ goal limit start v\<close>: the
  loop started from \<open>start\<close> is at the head of an iteration with variables \<open>v\<close>.
  \<open>DFS_run\<close> runs a given number of iterations, none of which returns or raises.
  \<open>edge succ s t\<close>: \<open>t\<close> is among the successors of \<open>s\<close>.
\<close>

definition edge :: "('s \<Rightarrow> error + ('a \<times> 's) list) \<Rightarrow> 's \<Rightarrow> 's \<Rightarrow> bool" where
  "edge succ s t = (case succ s of Inl e \<Rightarrow> False | Inr succs \<Rightarrow> t \<in> snd ` set succs)"

inductive DFS_reachable ::
  "('s \<Rightarrow> error + ('a \<times> 's) list) \<Rightarrow> ('s \<Rightarrow> error + bool) \<Rightarrow> int \<Rightarrow> 's \<Rightarrow> ('s, 'a) dfs_vars \<Rightarrow> bool"
  for succ goal limit start where
    initial: "DFS_reachable succ goal limit start (DFS_initial start)"
  | step: "DFS_reachable succ goal limit start v \<Longrightarrow> DFS_step succ goal limit v = Inr (Continue v') \<Longrightarrow>
           DFS_reachable succ goal limit start v'"

fun DFS_run ::
  "('s \<Rightarrow> error + ('a \<times> 's) list) \<Rightarrow> ('s \<Rightarrow> error + bool) \<Rightarrow> int \<Rightarrow> nat \<Rightarrow> ('s, 'a) dfs_vars \<Rightarrow>
     ('s, 'a) dfs_vars option" where
  "DFS_run succ goal limit 0 v = Some v"
| "DFS_run succ goal limit (Suc k) v =
     (case DFS_step succ goal limit v of
        Inr (Continue v') \<Rightarrow> DFS_run succ goal limit k v'
      | _ \<Rightarrow> None)"

text \<open>
  The invariant of the depth-limited loop: \<open>solution\<close> and \<open>path\<close> have one entry per
  state of the current path, the visited set is the set of the path's states, the path
  starts at the start state and follows successor edges, the stack's depths never
  increase from the top down, and every stacked entry of depth \<open>d > 0\<close> is a successor of
  the path's state at depth \<open>d - 1\<close>.
\<close>

definition DFS_inv :: "('s \<Rightarrow> error + ('a \<times> 's) list) \<Rightarrow> 's \<Rightarrow> ('s, 'a) dfs_vars \<Rightarrow> bool" where
  "DFS_inv succ start v =
     (length (solution v) = length (path v) \<and>
      visited_states v = set (path v) \<and>
      distinct (path v) \<and>
      (path v = [] \<or> hd (path v) = start) \<and>
      successively (edge succ) (path v) \<and>
      sorted_wrt (\<lambda>x y. fst (snd y) \<le> fst (snd x)) (states_to_expand v) \<and>
      list_all (\<lambda>(s, d, a). 0 \<le> d \<and> d \<le> int (length (path v)) \<and>
                 (if d = 0 then s = start else edge succ (path v ! nat (d - 1)) s))
        (states_to_expand v))"

text \<open>
  The states of the A* loop. \<open>astar_initial start\<close> holds the frontier after the start
  entry has been put on it; \<open>astar_reachable P start v\<close>: the loop started from \<open>start\<close>
  is at the head of an iteration with variables \<open>v\<close>; \<open>astar_run\<close> runs a given number of
  iterations, none of which returns or raises. \<open>astar_inv\<close>: the expansion count is the
  number of visited states and the number of recorded nodes.
\<close>

definition astar_initial :: "'s \<Rightarrow> ('s, 'a) astar_vars" where
  "astar_initial st =
     \<lparr>num_expanded = 0, expanded_states = [], visited = {},
      frontier = [(Infinity, 0, st, - 1, None)]\<rparr>"

inductive astar_reachable :: "('s, 'a) problem \<Rightarrow> 's \<Rightarrow> ('s, 'a) astar_vars \<Rightarrow> bool"
  for P start where
    initial: "astar_reachable P start (astar_initial start)"
  | step: "astar_reachable P start v \<Longrightarrow> astar_step P v = Inr (Next v') \<Longrightarrow>
           astar_reachable P start v'"

fun astar_run :: "('s, 'a) problem \<Rightarrow> nat \<Rightarrow> ('s, 'a) astar_vars \<Rightarrow> ('s, 'a) astar_vars option" where
  "astar_run P 0 v = Some v"
| "astar_run P (Suc k) v =
     (case astar_step P v of Inr (Next v') \<Rightarrow> astar_run P k v' | _ \<Rightarrow> None)"

definition astar_inv :: "('s, 'a) astar_vars \<Rightarrow> bool" where
  "astar_inv v =
     (finite (visited v) \<and> num_expanded v = int (card (visited v)) \<and>
      int (length (expanded_states v)) = num_expanded v)"

section \<open>Example instances\<close>

text \<open>
  Four tiles whose only matching arrangement is \<open>solved\<close>; \<open>two_away\<close> is \<open>solved\<close> with the
  tiles of each row exchanged, two swaps from the goal.
\<close>

definition tile :: "nat \<Rightarrow> int \<Rightarrow> int \<Rightarrow> int \<Rightarrow> int \<Rightarrow> Domino" where
  "tile k t r b l = \<lparr>ident = k, top_side = t, right = r, bottom = b, left = l\<rparr>"

definition g00 :: Domino where "g00 = tile 0 1 2 3 4"
definition g01 :: Domino where "g01 = tile 1 5 6 7 2"
definition g10 :: Domino where "g10 = tile 2 3 8 9 1"
definition g11 :: Domino where "g11 = tile 3 7 9 9 8"

definition solved :: grid where "solved = [[g00, g01], [g10, g11]]"
definition two_away :: grid where "two_away = [[g01, g00], [g11, g10]]"
definition puzzle2 :: FourDominoes where "puzzle2 = \<lparr>self_N = 2, self_state = two_away\<rparr>"

definition informed2 :: FourDominoes_I where
  "informed2 = \<lparr>self_N = 2, self_state = two_away, self_goal_state = Some solved\<rparr>"

text \<open>
  A problem for the A* engine whose \<^verbatim>\<open>successor\<close> returns the 4-tuples the engine's loop
  unpacks: state \<open>s\<close> has the one successor \<open>s + 1\<close>, reached by the action \<open>s\<close>; the
  heuristic is 0 everywhere.
\<close>

definition chain_problem :: "int \<Rightarrow> (int, int) problem" where
  "chain_problem goal =
     \<lparr>successor_of = (\<lambda>s. Inr [Tuple4 s (s + 1) 0 0]),
      goal_test_of = (\<lambda>s. Inr (s = goal)),
      heuristicfunction_of = (\<lambda>s. Inr 0),
      state_lt = (\<lambda>s t. Inr (s < t)),
      action_lt = (\<lambda>a b. Inr (a < b))\<rparr>"

text \<open>
  Two states of the depth-limited loop on the 2 by 2 puzzle. \<open>after_branch\<close> is the
  state after 8 iterations with limit 1 from \<open>two_away\<close>: the branch of the last
  successor has been expanded and its children discarded. \<open>too_deep\<close> is the state after 4
  iterations with limit 2: the entry on top of its stack has depth 3. \<open>swap_actions\<close>
  are the six actions of a 2 by 2 grid, in the order \<open>successor\<close> returns them.
\<close>

definition after_branch :: "(grid, action) dfs_vars" where
  "after_branch =
     \<lparr>num_expanded_states = 2,
      path = [two_away, swapped two_away ((1, 0), (1, 1))],
      solution = [None, Some ((1, 0), (1, 1))],
      visited_states = {two_away, swapped two_away ((1, 0), (1, 1))},
      states_to_expand =
        map (\<lambda>a. (swapped two_away a, 1, Some a))
          [((0, 1), (1, 1)), ((0, 1), (1, 0)), ((0, 0), (1, 1)), ((0, 0), (1, 0)), ((0, 0), (0, 1))]\<rparr>"

definition swap_actions :: "action list" where
  "swap_actions =
     [((0, 0), (0, 1)), ((0, 0), (1, 0)), ((0, 0), (1, 1)),
      ((0, 1), (1, 0)), ((0, 1), (1, 1)), ((1, 0), (1, 1))]"

definition too_deep :: "(grid, action) dfs_vars" where
  "too_deep =
     (let c = swapped two_away ((1, 0), (1, 1)); c' = swapped c ((0, 1), (1, 1))
      in \<lparr>num_expanded_states = 3,
          path = [two_away, c, c'],
          solution = [None, Some ((1, 0), (1, 1)), Some ((0, 1), (1, 1))],
          visited_states = {two_away, c, c'},
          states_to_expand =
            map (\<lambda>a. (swapped c' a, 3, Some a)) (rev swap_actions) @
            map (\<lambda>a. (swapped c a, 2, Some a)) (tl (tl (rev swap_actions))) @
            map (\<lambda>a. (swapped two_away a, 1, Some a)) (tl (rev swap_actions))\<rparr>)"

text \<open>
  A problem whose only successor of a state is the state itself, reached by the action
  7, and the A* loop's variables after the start state 0 has been expanded on it.
\<close>

definition loop_problem :: "(int, int) problem" where
  "loop_problem =
     \<lparr>successor_of = (\<lambda>s. Inr [Tuple4 7 s 0 0]),
      goal_test_of = (\<lambda>s. Inr False),
      heuristicfunction_of = (\<lambda>s. Inr 0),
      state_lt = (\<lambda>s t. Inr (s < t)),
      action_lt = (\<lambda>a b. Inr (a < b))\<rparr>"

definition revisit :: "(int, int) astar_vars" where
  "revisit = \<lparr>num_expanded = 1, expanded_states = [(- 1, None)], visited = {0},
              frontier = [(Finite 2, 2, 0, 0, Some 7)]\<rparr>"

section \<open>Sequences and exceptions: basic facts\<close>

lemma index_in_range: "0 \<le> i \<Longrightarrow> i < int (length xs) \<Longrightarrow> index xs i = Inr (xs ! nat i)"
  by (simp add: index_def wrap_index_def)

lemma setitem_in_range: "0 \<le> i \<Longrightarrow> i < int (length xs) \<Longrightarrow> setitem xs i v = Inr (xs[nat i := v])"
  by (simp add: setitem_def wrap_index_def)

lemma ebind_Inr [simp]: "ebind (Inr x) f = f x"
  by (simp add: ebind_def)

lemma ebind_Inl [simp]: "ebind (Inl e) f = Inl e"
  by (simp add: ebind_def)

lemma emap_Inr: "(\<And>x. x \<in> set xs \<Longrightarrow> f x = Inr (g x)) \<Longrightarrow> emap f xs = Inr (map g xs)"
  by (induction xs) simp_all

section \<open>The move of the uninformed puzzle\<close>

lemma square_row: "square n st \<Longrightarrow> 0 \<le> r \<Longrightarrow> r < n \<Longrightarrow> int (length (st ! nat r)) = n"
  by (auto simp: square_def list_all_length)

lemma swap_tiles_square:
  assumes "square n st" "valid_action n a"
  shows "swap_tiles st a = Inr (swapped st a)"
proof -
  obtain r1 c1 r2 c2 where a: "a = ((r1, c1), (r2, c2))" by (metis prod.exhaust)
  from assms(2) a have v: "0 \<le> r1" "r1 < n" "0 \<le> c1" "c1 < n" "0 \<le> r2" "r2 < n" "0 \<le> c2" "c2 < n"
    by (simp_all add: valid_action_def)
  from assms(1) have len: "int (length st) = n" by (simp add: square_def)
  note rows = square_row[OF assms(1) v(1,2)] square_row[OF assms(1) v(5,6)]
  show ?thesis
    using v len rows
    by (simp add: a swap_tiles_def swapped_def index_in_range setitem_in_range Let_def nth_list_update)
qed

lemma cell_square: "square n st \<Longrightarrow> position n (r, c) \<Longrightarrow> cell st r c = Inr (st ! nat r ! nat c)"
  using square_row[of n st r]
  by (simp add: cell_def position_def square_def index_in_range)

lemma length_swapped: "length (swapped st a) = length st"
  by (simp add: swapped_def Let_def split: prod.splits)

lemma swapped_nth:
  assumes "nat r1 < length st" "nat r2 < length st" "i < length st"
  shows "swapped st ((r1, c1), (r2, c2)) ! i =
           (if i = nat r2
            then ((if nat r1 = nat r2 then (st ! nat r1)[nat c1 := st ! nat r2 ! nat c2] else st ! nat r2))
                   [nat c2 := st ! nat r1 ! nat c1]
            else if i = nat r1 then (st ! nat r1)[nat c1 := st ! nat r2 ! nat c2]
            else st ! i)"
  using assms by (simp add: swapped_def Let_def nth_list_update)

lemma square_swapped:
  assumes "square n st" "valid_action n a"
  shows "square n (swapped st a)"
proof -
  obtain r1 c1 r2 c2 where a: "a = ((r1, c1), (r2, c2))" by (metis prod.exhaust)
  from assms(2) a have v: "0 \<le> r1" "r1 < n" "0 \<le> r2" "r2 < n"
    by (simp_all add: valid_action_def)
  from assms(1) have len: "int (length st) = n" by (simp add: square_def)
  have r: "nat r1 < length st" "nat r2 < length st" using v len by auto
  have rows: "\<And>k. k < length st \<Longrightarrow> int (length (st ! k)) = n"
    using assms(1) by (simp add: square_def list_all_length)
  have "int (length (swapped st a ! k)) = n" if "k < length st" for k
    unfolding a swapped_nth[OF r that] using rows[OF that] rows[OF r(1)] rows[OF r(2)] by simp
  then show ?thesis using len by (simp add: square_def list_all_length length_swapped)
qed

lemma update2_nth:
  assumes "i1 < length st" "i2 < length st" "i < length st"
    "j1 < length (st ! i1)" "j2 < length (st ! i2)" "j < length (st ! i)"
  shows "(st[i1 := (st ! i1)[j1 := x]])[i2 := (st[i1 := (st ! i1)[j1 := x]] ! i2)[j2 := y]] ! i ! j =
     (if (i, j) = (i2, j2) then y else if (i, j) = (i1, j1) then x else st ! i ! j)"
  using assms by (auto simp: nth_list_update)


lemma swapped_cells:
  assumes "square n st" "valid_action n a"
  shows "tiles_swapped n st a (swapped st a)"
proof -
  obtain r1 c1 r2 c2 where a: "a = ((r1, c1), (r2, c2))" by (metis prod.exhaust)
  from assms(2) a have v: "0 \<le> r1" "r1 < n" "0 \<le> c1" "c1 < n" "0 \<le> r2" "r2 < n" "0 \<le> c2" "c2 < n"
    by (simp_all add: valid_action_def)
  have p: "position n (r1, c1)" "position n (r2, c2)" using v by (simp_all add: position_def)
  from assms(1) have len: "int (length st) = n" by (simp add: square_def)
  have r: "nat r1 < length st" "nat r2 < length st" using v len by auto
  have rows: "\<And>k. k < length st \<Longrightarrow> int (length (st ! k)) = n"
    using assms(1) by (simp add: square_def list_all_length)
  have c: "nat c1 < length (st ! nat r1)" "nat c2 < length (st ! nat r2)"
    using rows[OF r(1)] rows[OF r(2)] v by auto
  have sq: "square n (swapped st a)" by (rule square_swapped[OF assms])
  have "cell (swapped st a) r c =
           (if (r, c) = (r1, c1) then cell st r2 c2
            else if (r, c) = (r2, c2) then cell st r1 c1
            else cell st r c)" if rc: "position n (r, c)" for r c
  proof -
    from rc have b: "0 \<le> r" "r < n" "0 \<le> c" "c < n" by (simp_all add: position_def)
    have i: "nat r < length st" using b len by auto
    have j: "nat c < length (st ! nat r)" using rows[OF i] b by auto
    have eqs: "(nat r, nat c) = (nat r1, nat c1) \<longleftrightarrow> (r, c) = (r1, c1)"
      "(nat r, nat c) = (nat r2, nat c2) \<longleftrightarrow> (r, c) = (r2, c2)"
      using b v by auto
    have "swapped st a ! nat r ! nat c =
        (if (nat r, nat c) = (nat r2, nat c2) then st ! nat r1 ! nat c1
         else if (nat r, nat c) = (nat r1, nat c1) then st ! nat r2 ! nat c2
         else st ! nat r ! nat c)"
      unfolding a swapped_def prod.case Let_def
      by (rule update2_nth[OF r i c j])
    then have "swapped st a ! nat r ! nat c =
        (if (r, c) = (r2, c2) then st ! nat r1 ! nat c1
         else if (r, c) = (r1, c1) then st ! nat r2 ! nat c2
         else st ! nat r ! nat c)"
      unfolding eqs .
    then show ?thesis
      unfolding cell_square[OF sq rc] cell_square[OF assms(1) p(1)] cell_square[OF assms(1) p(2)]
        cell_square[OF assms(1) rc]
      by auto
  qed
  then show ?thesis using sq by (simp add: tiles_swapped_def a)
qed

text \<open>
  Claim C10. For every valid action \<open>((r1, c1), (r2, c2))\<close> on a well-formed puzzle,
  \<open>move\<close> raises nothing and replaces the puzzle's state with one in which the two
  positions hold each other's previous tiles and every other position holds the tile it
  held before; the size is kept. The previous state is a tuple of tuples, a value the
  model never changes: \<open>move\<close> builds the new grid from a copy of the rows.
\<close>

theorem move_swaps_tiles:
  assumes "well_formed self" and "valid_action (self_N self) a"
  shows "\<exists>self'. move self a = Inr self' \<and> self_N self' = self_N self \<and> well_formed self' \<and>
           tiles_swapped (self_N self) (self_state self) a (self_state self')"
proof -
  from assms(1) have sq: "square (self_N self) (self_state self)" by (simp add: well_formed_def)
  have m: "move self a = Inr (self\<lparr>self_state := swapped (self_state self) a\<rparr>)"
    using assms(2) by (simp add: move_def swap_tiles_square[OF sq assms(2)])
  show ?thesis
    using assms(1) swapped_cells[OF sq assms(2)] square_swapped[OF sq assms(2)]
    by (simp add: m well_formed_def)
qed

theorem move_swaps_tiles_witness:
  "well_formed \<lparr>self_N = 2, self_state = solved\<rparr> \<and>
   valid_action 2 ((0, 0), (1, 1)) \<and>
   move \<lparr>self_N = 2, self_state = solved\<rparr> ((0, 0), (1, 1)) =
     Inr \<lparr>self_N = 2, self_state = [[g11, g01], [g10, g00]]\<rparr> \<and>
   (\<exists>self'. move \<lparr>self_N = 2, self_state = solved\<rparr> ((0, 0), (1, 1)) = Inr self' \<and>
      self_N self' = 2 \<and> well_formed self' \<and>
      tiles_swapped 2 solved ((0, 0), (1, 1)) (self_state self'))"
proof -
  have w: "well_formed \<lparr>self_N = 2, self_state = solved\<rparr>"
    by (simp add: well_formed_def square_def solved_def)
  have v: "valid_action 2 ((0, 0), (1, 1))"
    by (simp add: valid_action_def)
  have m: "move \<lparr>self_N = 2, self_state = solved\<rparr> ((0, 0), (1, 1)) =
     Inr \<lparr>self_N = 2, self_state = [[g11, g01], [g10, g00]]\<rparr>"
    by (simp add: move_def valid_action_def swap_tiles_def index_def setitem_def wrap_index_def
        solved_def)
  show ?thesis
    using move_swaps_tiles[of "\<lparr>self_N = 2, self_state = solved\<rparr>" "((0, 0), (1, 1))"] w v m
    by simp
qed

section \<open>The successors of the uninformed puzzle\<close>

lemma set_index_pairs: "set (index_pairs n) = {(i, j). 0 \<le> i \<and> i < j \<and> j < n * n}"
  by (force simp: index_pairs_def)

lemma distinct_pairs_concat:
  "distinct xs \<Longrightarrow> (\<And>x. distinct (f x)) \<Longrightarrow> distinct (concat (map (\<lambda>i. map (\<lambda>j. (i, j)) (f i)) xs))"
  by (induction xs) (auto simp: distinct_map inj_on_def)

lemma distinct_index_pairs: "distinct (index_pairs n)"
  unfolding index_pairs_def by (rule distinct_pairs_concat) simp_all

lemma length_index_pairs:
  "length (index_pairs 2) = 6" "length (index_pairs 3) = 36" "length (index_pairs 4) = 120"
  by code_simp+

lemma size_cases: "2 \<le> n \<Longrightarrow> n \<le> 4 \<Longrightarrow> n = 2 \<or> n = 3 \<or> n = (4::int)"
  by arith

lemma div_mod_position:
  assumes "2 \<le> n" "n \<le> 4" "0 \<le> i" "i < n * n"
  shows "position n (i div n, i mod n)"
  using size_cases[OF assms(1,2)] assms(3,4) by (auto simp: position_def)

lemma valid_action_of:
  assumes "2 \<le> n" "n \<le> 4" "p \<in> set (index_pairs n)"
  shows "valid_action n (action_of n p)"
proof -
  obtain i j where p: "p = (i, j)" by (cases p)
  from assms(3) p have b: "0 \<le> i" "i < n * n" "0 \<le> j" "j < n * n"
    by (auto simp: set_index_pairs)
  show ?thesis
    using div_mod_position[OF assms(1,2) b(1,2)] div_mod_position[OF assms(1,2) b(3,4)]
    by (simp add: p action_of_def valid_action_def position_def)
qed

lemma successor_eq:
  assumes "2 \<le> self_N self" "self_N self \<le> 4" "square (self_N self) st"
  shows "successor self st =
     Inr (map (\<lambda>p. (action_of (self_N self) p, swapped st (action_of (self_N self) p)))
            (index_pairs (self_N self)))"
  unfolding successor_def
proof (rule emap_Inr)
  fix p assume p: "p \<in> set (index_pairs (self_N self))"
  have init: "FourDominoes_init (self_N self) (Some st) [] = Inr \<lparr>self_N = self_N self, self_state = st\<rparr>"
    using assms by (simp add: FourDominoes_init_def square_def)
  have v: "valid_action (self_N self) (action_of (self_N self) p)"
    by (rule valid_action_of[OF assms(1,2) p])
  show "ebind (FourDominoes_init (self_N self) (Some st) []) (\<lambda>copy.
        ebind (move copy (action_of (self_N self) p)) (\<lambda>copy'.
        Inr (action_of (self_N self) p, self_state copy'))) =
      Inr (action_of (self_N self) p, swapped st (action_of (self_N self) p))"
    using v by (simp add: init move_def swap_tiles_square[OF assms(3) v])
qed

lemma div_mod_inj: "(i div n, i mod n) = (i' div n, i' mod n) \<Longrightarrow> i = (i'::int)"
  by (metis div_mult_mod_eq prod.inject)

lemma position_index:
  assumes "2 \<le> n" "n \<le> 4" "position n p"
  shows "\<exists>i. 0 \<le> i \<and> i < n * n \<and> (i div n, i mod n) = p"
proof -
  obtain r c where p: "p = (r, c)" by (cases p)
  from assms(3) p have b: "0 \<le> r" "r < n" "0 \<le> c" "c < n" by (simp_all add: position_def)
  have "0 \<le> r * n + c \<and> r * n + c < n * n \<and> (r * n + c) div n = r \<and> (r * n + c) mod n = c"
    using size_cases[OF assms(1,2)] b by auto
  then show ?thesis using p by blast
qed

text \<open>
  Claim C9. For every square state of side \<open>N\<close>, \<open>2 \<le> N \<le> 4\<close>, \<open>successor\<close> raises nothing
  and returns \<open>N\<^sup>2 (N\<^sup>2 - 1) / 2\<close> successors, never none: the unordered pairs of cells of
  their actions are pairwise different and are exactly the unordered pairs of distinct
  cells of the grid, and each resulting state is the given state with the tiles at the
  two cells of its action exchanged.
\<close>

theorem successor_one_per_pair:
  assumes "2 \<le> self_N self" and "self_N self \<le> 4" and "square (self_N self) st"
  shows "\<exists>succs. successor self st = Inr succs \<and>
      int (length succs) = self_N self * self_N self * (self_N self * self_N self - 1) div 2 \<and>
      succs \<noteq> [] \<and>
      distinct (map ends succs) \<and>
      ends ` set succs =
        {{p, q} | p q. position (self_N self) p \<and> position (self_N self) q \<and> p \<noteq> q} \<and>
      (\<forall>s \<in> set succs. tiles_swapped (self_N self) st (fst s) (snd s))"
proof -
  define n where "n = self_N self"
  define pos where "pos = (\<lambda>i. (i div n, i mod n))"
  define g where "g = (\<lambda>p. (action_of n p, swapped st (action_of n p)))"
  define succs where "succs = map g (index_pairs n)"
  have n: "2 \<le> n" "n \<le> 4" and sq: "square n st" using assms by (simp_all add: n_def)
  have s: "successor self st = Inr succs"
    using successor_eq[OF assms] by (simp add: succs_def g_def n_def)
  have len: "int (length succs) = n * n * (n * n - 1) div 2"
    using size_cases[OF n] by (auto simp: succs_def length_index_pairs)
  have ne: "succs \<noteq> []"
    using len size_cases[OF n] by auto
  have ends_g: "ends (g (i, j)) = {pos i, pos j}" for i j
    by (simp add: ends_def g_def action_of_def pos_def)
  have pos_inj: "pos i = pos j \<Longrightarrow> i = j" for i j
    unfolding pos_def by (rule div_mod_inj)
  have inj: "inj_on (\<lambda>p. ends (g p)) (set (index_pairs n))"
  proof (rule inj_onI)
    fix x y assume x: "x \<in> set (index_pairs n)" and y: "y \<in> set (index_pairs n)"
      and e: "ends (g x) = ends (g y)"
    obtain i j where xi: "x = (i, j)" by (cases x)
    obtain k l where yk: "y = (k, l)" by (cases y)
    from x y xi yk have lt: "i < j" "k < l" by (auto simp: set_index_pairs)
    from e have "{pos i, pos j} = {pos k, pos l}" by (simp add: xi yk ends_g)
    then have "(pos i = pos k \<and> pos j = pos l) \<or> (pos i = pos l \<and> pos j = pos k)"
      by (simp add: doubleton_eq_iff)
    then have "(i = k \<and> j = l) \<or> (i = l \<and> j = k)" using pos_inj by blast
    with lt show "x = y" by (auto simp: xi yk)
  qed
  have dist: "distinct (map ends succs)"
    using inj distinct_index_pairs by (simp add: succs_def distinct_map comp_def)
  have img: "ends ` set succs = {{p, q} | p q. position n p \<and> position n q \<and> p \<noteq> q}"
  proof (rule set_eqI, rule iffI)
    fix e assume "e \<in> ends ` set succs"
    then obtain i j where ij: "(i, j) \<in> set (index_pairs n)" and e: "e = {pos i, pos j}"
      by (auto simp: succs_def ends_g)
    from ij have b: "0 \<le> i" "i < n * n" "0 \<le> j" "j < n * n" "i < j"
      by (auto simp: set_index_pairs)
    have "position n (pos i)" "position n (pos j)"
      unfolding pos_def using div_mod_position[OF n b(1,2)] div_mod_position[OF n b(3,4)] by simp_all
    moreover have "pos i \<noteq> pos j" using pos_inj b(5) by blast
    ultimately show "e \<in> {{p, q} | p q. position n p \<and> position n q \<and> p \<noteq> q}"
      using e by blast
  next
    fix e assume "e \<in> {{p, q} | p q. position n p \<and> position n q \<and> p \<noteq> q}"
    then obtain p q where e: "e = {p, q}" and pq: "position n p" "position n q" "p \<noteq> q"
      by blast
    obtain i where i: "0 \<le> i" "i < n * n" "pos i = p"
      using position_index[OF n pq(1)] by (auto simp: pos_def)
    obtain j where j: "0 \<le> j" "j < n * n" "pos j = q"
      using position_index[OF n pq(2)] by (auto simp: pos_def)
    from pq(3) i(3) j(3) have "i \<noteq> j" by blast
    then consider "i < j" | "j < i" by linarith
    then show "e \<in> ends ` set succs"
    proof cases
      case 1
      then have "(i, j) \<in> set (index_pairs n)" using i j by (simp add: set_index_pairs)
      then have "ends (g (i, j)) \<in> ends ` set succs" by (simp add: succs_def)
      then show ?thesis by (simp add: ends_g e i j)
    next
      case 2
      then have "(j, i) \<in> set (index_pairs n)" using i j by (simp add: set_index_pairs)
      then have "ends (g (j, i)) \<in> ends ` set succs" by (simp add: succs_def)
      then show ?thesis by (simp add: ends_g e i j insert_commute)
    qed
  qed
  have sw: "\<forall>s \<in> set succs. tiles_swapped n st (fst s) (snd s)"
    using swapped_cells[OF sq valid_action_of[OF n]] by (auto simp: succs_def g_def)
  show ?thesis
    using s len ne dist img sw unfolding n_def by blast
qed

theorem successor_one_per_pair_witness:
  "(2::int) \<le> self_N puzzle2 \<and> self_N puzzle2 \<le> 4 \<and> square (self_N puzzle2) two_away \<and>
   (\<exists>succs. successor puzzle2 two_away = Inr succs \<and>
      int (length succs) = self_N puzzle2 * self_N puzzle2 * (self_N puzzle2 * self_N puzzle2 - 1) div 2 \<and>
      length succs = 6 \<and>
      succs \<noteq> [] \<and>
      distinct (map ends succs) \<and>
      ends ` set succs =
        {{p, q} | p q. position (self_N puzzle2) p \<and> position (self_N puzzle2) q \<and> p \<noteq> q} \<and>
      list_all (\<lambda>s. tiles_swapped (self_N puzzle2) two_away (fst s) (snd s)) succs)"
proof -
  have n: "self_N puzzle2 = 2" by (simp add: puzzle2_def)
  have sq: "square (self_N puzzle2) two_away"
    by (simp add: n square_def two_away_def)
  show ?thesis
    using successor_one_per_pair[of puzzle2 two_away] sq
    by (auto simp: n list_all_iff)
qed

section \<open>The depth-limited engine: unfolding the loop\<close>

lemma DFS_loop_Continue:
  "DFS_step succ goal limit v = Inr (Continue v') \<Longrightarrow> DFS_loop succ goal limit v = DFS_loop succ goal limit v'"
  by (subst DFS_loop.simps) simp

lemma DFS_loop_Return:
  "DFS_step succ goal limit v = Inr (Return r) \<Longrightarrow> DFS_loop succ goal limit v = Inr r"
  by (subst DFS_loop.simps) simp

lemma DFS_loop_error:
  "DFS_step succ goal limit v = Inl e \<Longrightarrow> DFS_loop succ goal limit v = Inl e"
  by (subst DFS_loop.simps) simp

lemma DFS_negative_limit:
  fixes succ :: "'s \<Rightarrow> error + ('a \<times> 's) list"
  assumes "limit < 0"
  shows "DepthLimitedDFS_search succ goal st limit = Inr (None, 0)"
proof -
  let ?v = "\<lparr>num_expanded_states = 0, path = [], solution = [], visited_states = {},
             states_to_expand = [(st, 0, None)]\<rparr> :: ('s, 'a) dfs_vars"
  have 1: "DFS_step succ goal limit ?v = Inr (Continue (?v\<lparr>states_to_expand := []\<rparr>))"
    using assms by (simp add: DFS_step_def)
  have 2: "DFS_step succ goal limit (?v\<lparr>states_to_expand := []\<rparr>) = Inr (Return (None, 0))"
    by (simp add: DFS_step_def)
  show ?thesis
    unfolding DepthLimitedDFS_search_def DFS_initial_def DFS_loop_Continue[OF 1]
    by (rule DFS_loop_Return[OF 2])
qed

text \<open>
  Claim C7, as the code has it. \<^verbatim>\<open>DepthLimitedDFS.search\<close> does not check its limit. With
  a negative limit the start entry, of depth 0, is deeper than the limit: it is popped
  and discarded, the stack is empty, and the search returns the ordinary result
  \<^verbatim>\<open>(None, 0)\<close>; no exception is raised.
\<close>

theorem DFS_negative_limit_ordinary_result:
  "limit < 0 \<Longrightarrow> DepthLimitedDFS_search succ goal st limit = Inr (None, 0)"
  by (rule DFS_negative_limit)

theorem DFS_negative_limit_witness:
  "(- 1 :: int) < 0 \<and>
   DepthLimitedDFS_search (successor puzzle2) (goal_test puzzle2) solved (- 1) = Inr (None, 0)"
  using DFS_negative_limit_ordinary_result[of "- 1" "successor puzzle2" "goal_test puzzle2" solved]
  by simp

text \<open>
  The claim as stated (a negative limit is refused with an invalid-argument signal) fails
  at limit \<open>-3\<close> on the 2 by 2 puzzle: the result is not an exception.
\<close>

theorem DFS_negative_limit_counterexample:
  "\<not> isl (DepthLimitedDFS_search (successor puzzle2) (goal_test puzzle2) two_away (- 3)) \<and>
   DepthLimitedDFS_search (successor puzzle2) (goal_test puzzle2) two_away (- 3) = Inr (None, 0)"
  by code_simp

section \<open>The iterative deepening driver on a 2 by 2 puzzle\<close>

text \<open>
  One pass of the driver's loop: a solution is returned with the running total when the
  call's count differs from the previous call's; equal counts end the search without a
  solution, whatever the call returned; so do a limit above \<open>max_limit\<close> and a total of
  50000 or more.
\<close>

lemma IDS_loop_solution:
  assumes "limit \<le> max_limit" "tot < 50000"
    and "DepthLimitedDFS_search succ goal st limit = Inr (Some acts, num)"
    and "num \<noteq> prev" and "succ st = Inr succs"
  shows "IDS_loop succ goal st tot prev limit = Inr (Some acts, tot + num)"
  using assms by (subst IDS_loop.simps) simp

lemma IDS_loop_stagnation:
  assumes "limit \<le> max_limit" "tot < 50000"
    and "DepthLimitedDFS_search succ goal st limit = Inr (sol, num)" and "num = prev"
  shows "IDS_loop succ goal st tot prev limit = Inr (None, tot)"
  using assms by (subst IDS_loop.simps) simp

lemma IDS_loop_ceiling:
  "limit > max_limit \<or> tot \<ge> 50000 \<Longrightarrow> IDS_loop succ goal st tot prev limit = Inr (None, tot)"
  by (subst IDS_loop.simps) auto

text \<open>
  Claim C3, at the failing input. From \<open>two_away\<close> the depth-limited search with limit 1
  expands 7 states and finds nothing; with limit 2 it finds the two-swap solution, again
  after 7 expansions. The driver compares the count with the previous call's before it
  looks at the solution, takes the equal counts for stagnation, and returns
  \<^verbatim>\<open>(None, 8)\<close>: the solution the third call returned is dropped.
\<close>

theorem IterativeDeepening_drops_solution:
  "DepthLimitedDFS_search (successor puzzle2) (goal_test puzzle2) two_away 0 = Inr (None, 1) \<and>
   DepthLimitedDFS_search (successor puzzle2) (goal_test puzzle2) two_away 1 = Inr (None, 7) \<and>
   DepthLimitedDFS_search (successor puzzle2) (goal_test puzzle2) two_away 2 =
     Inr (Some [Some ((1, 0), (1, 1)), Some ((0, 0), (0, 1))], 7) \<and>
   IterativeDeepening_search (successor puzzle2) (goal_test puzzle2) two_away = Inr (None, 8)"
  by code_simp

section \<open>The A* engine at its first expansion\<close>

lemma heappush_empty: "heappush lt [] x = Inr [x]"
  by (simp add: heappush_def siftdown_def siftdown_loop.simps)

lemma heappop_single: "heappop lt [x] = Inr (x, [])"
  by (simp add: heappop_def)

lemma Astar_search_initial: "Astar_search P st = astar_loop P (astar_initial st)"
  by (simp add: Astar_search_def heappush_empty astar_initial_def)

lemma reconstruct_root: "reconstruct expanded (- 1) act sol = Some (Inr (rev sol))"
  by (subst reconstruct.simps) simp

lemma Astar_goal_at_start:
  fixes P :: "('s, 'a) problem"
  assumes "goal_test_of P st = Inr True"
  shows "Astar_search P st = Some (Inr (Some [], Finite 0, 1))"
proof -
  let ?v = "\<lparr>num_expanded = 0, expanded_states = [], visited = {},
             frontier = [(Infinity, 0, st, - 1, None)]\<rparr> :: ('s, 'a) astar_vars"
  have "astar_step P ?v =
      Inr (Goal 0 (- 1) None (?v\<lparr>num_expanded := 1, visited := {st},
             expanded_states := [(- 1, None)], frontier := []\<rparr>))"
    using assms by (simp add: astar_step_def heappop_single)
  then show ?thesis
    unfolding Astar_search_def heappush_empty
    by (simp add: astar_loop.simps reconstruct_root)
qed

text \<open>
  Claim C8. For a 2 by 2 instance whose start state satisfies \<open>goal_test\<close>, the A* search
  returns the empty action list, cost 0 and expansion count 1.
\<close>

theorem Astar_solved_start:
  assumes "self_N self = 2" and "goal_test_I self st = Inr True"
  shows "Astar_search (FourDominoes_problem self) st = Some (Inr (Some [], Finite 0, 1))"
  using assms(2) by (intro Astar_goal_at_start) (simp add: FourDominoes_problem_def)

lemma goal_test_solved: "goal_test_I informed2 solved = Inr True"
  by code_simp

theorem Astar_solved_start_witness:
  "self_N informed2 = 2 \<and> goal_test_I informed2 solved = Inr True \<and>
   Astar_search (FourDominoes_problem informed2) solved = Some (Inr (Some [], Finite 0, 1))"
  using Astar_solved_start[of informed2 solved] goal_test_solved
  by (simp add: informed2_def)

text \<open>
  Claim C1, at the failing input. On the 2 by 2 puzzle started from a state that is not a
  goal, the first expansion calls \<open>successor\<close>, which builds a copy of the puzzle from the
  given state; the constructor sets \<^verbatim>\<open>goal_state\<close> only when it draws a random state,
  so \<^verbatim>\<open>copy.heuristicfunction\<close> reads an attribute the copy does not have. The search
  ends with AttributeError.
\<close>

theorem Astar_raises_on_first_expansion:
  "goal_test_I informed2 two_away = Inr False \<and>
   successor_I informed2 two_away = Inl AttributeError \<and>
   Astar_search (FourDominoes_problem informed2) two_away = Some (Inl AttributeError)"
  by code_simp

text \<open>
  The same holds on every instance: whatever the size and the puzzle's own
  \<^verbatim>\<open>goal_state\<close>, \<open>successor\<close> raises AttributeError on every square state, so the search
  from a start state that is not a goal never survives its first expansion.
\<close>

lemma index_pairs_first:
  assumes "2 \<le> n"
  shows "\<exists>ps. index_pairs n = (0, 1) # ps"
proof -
  have "2 * 2 \<le> n * n" using assms by (intro mult_mono) simp_all
  then have "1 < n * n" by simp
  then have a: "[0..n * n - 1] = 0 # [1..n * n - 1]" and b: "[1..n * n - 1] = 1 # [2..n * n - 1]"
    by (simp_all add: upto_rec1)
  show ?thesis unfolding index_pairs_def a by (simp add: b)
qed

lemma cells_first:
  assumes "2 \<le> n"
  shows "\<exists>cs. cells n = (0, 0) # cs"
proof -
  have a: "[0..n - 1] = 0 # [1..n - 1]" using assms by (simp add: upto_rec1)
  show ?thesis unfolding cells_def a by simp
qed

lemma heuristicfunction_no_goal_state:
  assumes "2 \<le> self_N self" "self_N self \<le> 4" "square (self_N self) st" "self_goal_state self = None"
  shows "heuristicfunction self st = Inl AttributeError"
proof -
  from cells_first[OF assms(1)] obtain cs where c: "cells (self_N self) = (0, 0) # cs" by blast
  have "position (self_N self) (0, 0)" using assms(1) by (simp add: position_def)
  from cell_square[OF assms(3) this] show ?thesis
    by (simp add: heuristicfunction_def c assms(4))
qed

lemma successor_I_raises:
  assumes "2 \<le> self_N self" "self_N self \<le> 4" "square (self_N self) st"
  shows "successor_I self st = Inl AttributeError"
proof -
  let ?n = "self_N self"
  from index_pairs_first[OF assms(1)] obtain ps where p: "index_pairs ?n = (0, 1) # ps" by blast
  then have mem: "(0, 1) \<in> set (index_pairs ?n)" by simp
  have v: "valid_action ?n (action_of ?n (0, 1))" by (rule valid_action_of[OF assms(1,2) mem])
  let ?copy = "\<lparr>self_N = ?n, self_state = st, self_goal_state = None\<rparr>"
  have init: "FourDominoes_I_init ?n (Some st) None ([], []) = Inr ?copy"
    using assms by (simp add: FourDominoes_I_init_def square_def)
  let ?moved = "\<lparr>self_N = ?n, self_state = swapped st (action_of ?n (0, 1)), self_goal_state = None\<rparr>"
  have mv: "move_I ?copy (action_of ?n (0, 1)) = Inr ?moved"
    using v by (simp add: move_I_def swap_tiles_square[OF assms(3) v])
  have h: "heuristicfunction ?moved (swapped st (action_of ?n (0, 1))) = Inl AttributeError"
    by (rule heuristicfunction_no_goal_state) (use assms square_swapped[OF assms(3) v] in simp_all)
  show ?thesis
    unfolding successor_I_def p by (simp add: init mv h)
qed

lemma Astar_first_expansion_raises:
  assumes "2 \<le> self_N self" "self_N self \<le> 4" "square (self_N self) st"
    and "goal_test_I self st = Inr False"
  shows "Astar_search (FourDominoes_problem self) st = Some (Inl AttributeError)"
proof -
  have "astar_step (FourDominoes_problem self) (astar_initial st) = Inl AttributeError"
    using assms(4) successor_I_raises[OF assms(1-3)]
    by (simp add: astar_step_def astar_initial_def heappop_single FourDominoes_problem_def)
  then show ?thesis
    unfolding Astar_search_initial by (subst astar_loop.simps) simp
qed

text \<open>
  The second defect behind claim C1: a \<^verbatim>\<open>successor\<close> that returns the pairs its
  docstring promises is refused by the engine's loop, which unpacks four names from each
  element.
\<close>

lemma put_children_pair: "put_children P num (Pair2 act child # items) heap = Inl ValueError"
  by simp

text \<open>
  Claim C2, at the failing input. On the chain problem with goal 3 the search returns
  the three actions 0, 1, 2 with cost 2: the loop overwrites \<^verbatim>\<open>path_cost\<close> with 1 before
  it pushes a child, so every child carries cost \<open>1 + 1\<close> whatever its parent's cost.
  With goal 1 the one-action solution is reported with cost 2 as well.
\<close>

theorem Astar_cost_is_not_path_length:
  "Astar_search (chain_problem 3) 0 = Some (Inr (Some [Some 0, Some 1, Some 2], Finite 2, 4)) \<and>
   Astar_search (chain_problem 1) 0 = Some (Inr (Some [Some 0], Finite 2, 2))"
  by code_simp

section \<open>The depth bound of the depth-limited engine\<close>

lemma trim_length: "trim depth v = Inr v' \<Longrightarrow> int (length (solution v')) \<le> depth"
proof (induction depth v rule: trim.induct)
  case (1 depth v)
  show ?case
  proof (cases "int (length (solution v)) > depth")
    case True
    with "1.prems" have c: "\<not> (solution v = [] \<or> path v = [])" "\<not> last (path v) \<notin> visited_states v"
      and t: "trim depth (v\<lparr>solution := butlast (solution v), path := butlast (path v),
                   visited_states := visited_states v - {last (path v)}\<rparr>) = Inr v'"
      by (subst (asm) trim.simps, simp split: if_splits)+
    from "1.IH"[OF True c t] show ?thesis .
  next
    case False
    with "1.prems" have "v' = v" by (subst (asm) trim.simps) simp
    with False show ?thesis by simp
  qed
qed

lemma DFS_step_Return_bound:
  assumes "DFS_step succ goal limit v = Inr (Return (Some acts, n))"
  shows "int (length acts) \<le> limit"
proof (cases "states_to_expand v")
  case Nil
  with assms show ?thesis by (simp add: DFS_step_def)
next
  case (Cons e rest)
  obtain st depth act where e: "e = (st, depth, act)" by (cases e)
  from assms Cons e have d: "\<not> depth > limit"
    by (auto simp: DFS_step_def split: if_splits)
  with assms Cons e obtain v1 where
    a: "accept st depth act (v\<lparr>states_to_expand := rest\<rparr>) = Inr v1" and acts: "acts = tl (solution v1)"
    by (auto simp: DFS_step_def ebind_Inr_iff split: if_splits)
  from a obtain v2 where t: "trim depth (v\<lparr>states_to_expand := rest\<rparr>) = Inr v2"
    and s: "solution v1 = solution v2 @ [act]"
    by (auto simp: accept_def ebind_Inr_iff)
  from trim_length[OF t] d show ?thesis by (simp add: acts s)
qed

lemma DFS_loop_bound:
  "DFS_loop succ goal limit v = Inr (Some acts, n) \<Longrightarrow> int (length acts) \<le> limit"
proof (induction succ goal limit v rule: DFS_loop.induct)
  case (1 succ goal limit v)
  show ?case
  proof (cases "DFS_step succ goal limit v")
    case (Inl e)
    with "1.prems" show ?thesis by (simp add: DFS_loop_error)
  next
    case (Inr x)
    show ?thesis
    proof (cases x)
      case (Return r)
      with Inr "1.prems" have "DFS_step succ goal limit v = Inr (Return (Some acts, n))"
        by (simp add: DFS_loop_Return)
      then show ?thesis by (rule DFS_step_Return_bound)
    next
      case (Continue v')
      with Inr "1.prems" have "DFS_loop succ goal limit v' = Inr (Some acts, n)"
        by (simp add: DFS_loop_Continue)
      with "1.IH"[OF Inr Continue] show ?thesis .
    qed
  qed
qed

lemma DFS_step_too_deep:
  "states_to_expand v = (s, d, a) # rest \<Longrightarrow> d > limit \<Longrightarrow>
   DFS_step succ goal limit v = Inr (Continue (v\<lparr>states_to_expand := rest\<rparr>))"
  by (simp add: DFS_step_def)

text \<open>
  Claim C5. For every start state and every limit, an action sequence returned by the
  depth-limited search has at most \<open>limit\<close> actions; and an iteration that pops an entry
  deeper than the limit only removes it from the stack, whatever \<open>successor\<close> and
  \<open>goal_test\<close> are: its children are never generated.
\<close>

theorem DFS_depth_bound:
  "(DepthLimitedDFS_search succ goal st limit = Inr (Some acts, n) \<longrightarrow> int (length acts) \<le> limit) \<and>
   (states_to_expand v = (s, d, a) # rest \<and> d > limit \<longrightarrow>
      DFS_step succ goal limit v = Inr (Continue (v\<lparr>states_to_expand := rest\<rparr>)))"
  using DFS_loop_bound[of succ goal limit _ acts n] DFS_step_too_deep[of v s d a rest limit succ goal]
  by (auto simp: DepthLimitedDFS_search_def)

lemma DFS_two_away_2:
  "DepthLimitedDFS_search (successor puzzle2) (goal_test puzzle2) two_away 2 =
     Inr (Some [Some ((1, 0), (1, 1)), Some ((0, 0), (0, 1))], 7)"
  by code_simp

lemma run4: "DFS_run (successor puzzle2) (goal_test puzzle2) 2 4 (DFS_initial two_away) = Some too_deep"
  by code_simp

lemma too_deep_top:
  "states_to_expand too_deep =
     (swapped two_away ((0, 1), (1, 0)), 3, Some ((1, 0), (1, 1))) # tl (states_to_expand too_deep)"
  by code_simp

theorem DFS_depth_bound_witness:
  "DepthLimitedDFS_search (successor puzzle2) (goal_test puzzle2) two_away 2 =
     Inr (Some [Some ((1, 0), (1, 1)), Some ((0, 0), (0, 1))], 7) \<and>
   int (length [Some ((1, 0), (1, 1)), Some ((0::int, 0::int), (0::int, 1::int))]) \<le> 2 \<and>
   DFS_run (successor puzzle2) (goal_test puzzle2) 2 4 (DFS_initial two_away) = Some too_deep \<and>
   states_to_expand too_deep =
     (swapped two_away ((0, 1), (1, 0)), 3, Some ((1, 0), (1, 1))) # tl (states_to_expand too_deep) \<and>
   (3::int) > 2 \<and>
   DFS_step (successor puzzle2) (goal_test puzzle2) 2 too_deep =
     Inr (Continue (too_deep\<lparr>states_to_expand := tl (states_to_expand too_deep)\<rparr>))"
  using DFS_depth_bound[of "successor puzzle2" "goal_test puzzle2" two_away 2
      "[Some ((1, 0), (1, 1)), Some ((0, 0), (0, 1))]" 7 too_deep "swapped two_away ((0, 1), (1, 0))" 3
      "Some ((1, 0), (1, 1))" "tl (states_to_expand too_deep)"]
    DFS_two_away_2 run4 too_deep_top
  by simp

section \<open>The path-local visited set of the depth-limited engine\<close>

lemma DFS_run_reachable:
  "DFS_reachable succ goal limit start v \<Longrightarrow> DFS_run succ goal limit k v = Some v' \<Longrightarrow>
   DFS_reachable succ goal limit start v'"
proof (induction k arbitrary: v)
  case 0
  then show ?case by simp
next
  case (Suc k)
  from Suc.prems(2) obtain v1 where s: "DFS_step succ goal limit v = Inr (Continue v1)"
    and r: "DFS_run succ goal limit k v1 = Some v'"
    by (auto split: sum.splits outcome.splits)
  from Suc.IH[OF DFS_reachable.step[OF Suc.prems(1) s] r] show ?case .
qed

lemma take_butlast_less: "n < length xs \<Longrightarrow> take n (butlast xs) = take n xs"
  by (auto simp: butlast_conv_take min_def)

lemma set_butlast_distinct: "distinct xs \<Longrightarrow> xs \<noteq> [] \<Longrightarrow> set xs - {last xs} = set (butlast xs)"
  by (induction xs rule: rev_induct) auto

lemma trim_take:
  assumes "length (solution v) = length (path v)" "visited_states v = set (path v)"
    "distinct (path v)" "0 \<le> d"
  shows "trim d v = Inr (v\<lparr>solution := take (nat d) (solution v), path := take (nat d) (path v),
           visited_states := set (take (nat d) (path v))\<rparr>)"
  using assms
proof (induction d v rule: trim.induct)
  case (1 depth v)
  show ?case
  proof (cases "int (length (solution v)) > depth")
    case True
    let ?v2 = "v\<lparr>solution := butlast (solution v), path := butlast (path v),
                 visited_states := visited_states v - {last (path v)}\<rparr>"
    from True "1.prems" have ne: "solution v \<noteq> []" "path v \<noteq> []" by auto
    then have c: "\<not> (solution v = [] \<or> path v = [])" by simp
    from ne "1.prems" have m: "\<not> last (path v) \<notin> visited_states v" by simp
    have lt: "nat depth < length (solution v)" "nat depth < length (path v)"
      using True "1.prems" by auto
    have p2: "length (solution ?v2) = length (path ?v2)" "visited_states ?v2 = set (path ?v2)"
      "distinct (path ?v2)"
      using "1.prems" ne by (simp_all add: set_butlast_distinct distinct_butlast)
    have "trim depth v = trim depth ?v2"
      using True c m by (subst trim.simps) simp
    also have "\<dots> = Inr (?v2\<lparr>solution := take (nat depth) (solution ?v2),
        path := take (nat depth) (path ?v2), visited_states := set (take (nat depth) (path ?v2))\<rparr>)"
      by (rule "1.IH"[OF True c m p2 "1.prems"(4)])
    finally show ?thesis using lt by (simp add: take_butlast_less)
  next
    case False
    then have "trim depth v = Inr v" by (subst trim.simps) simp
    moreover have "nat depth \<ge> length (solution v)" "nat depth \<ge> length (path v)"
      using False "1.prems" by auto
    ultimately show ?thesis using "1.prems" by simp
  qed
qed

lemma accept_take:
  assumes "length (solution v) = length (path v)" "visited_states v = set (path v)"
    "distinct (path v)" "0 \<le> d"
  shows "accept s d a v =
     Inr (v\<lparr>num_expanded_states := num_expanded_states v + 1,
            visited_states := insert s (set (take (nat d) (path v))),
            solution := take (nat d) (solution v) @ [a],
            path := take (nat d) (path v) @ [s]\<rparr>)"
  by (simp add: accept_def trim_take[OF assms])

lemma DFS_inv_initial: "DFS_inv succ start (DFS_initial start)"
  by (simp add: DFS_inv_def DFS_initial_def)

lemma sorted_wrt_all: "(\<And>x y. x \<in> set xs \<Longrightarrow> y \<in> set xs \<Longrightarrow> P x y) \<Longrightarrow> sorted_wrt P xs"
  by (induction xs) auto

lemma successively_take: "successively P xs \<Longrightarrow> successively P (take n xs)"
  using successively_append_iff[of P "take n xs" "drop n xs"] by simp

lemma last_take_nth:
  assumes "0 < n" "n \<le> length xs"
  shows "last (take n xs) = xs ! (n - 1)"
proof -
  have "take n xs \<noteq> []" using assms by auto
  then have "last (take n xs) = take n xs ! (length (take n xs) - 1)" by (rule last_conv_nth)
  also have "\<dots> = xs ! (n - 1)" using assms by simp
  finally show ?thesis .
qed

lemma hd_take_pos: "0 < n \<Longrightarrow> xs \<noteq> [] \<Longrightarrow> hd (take n xs) = hd xs"
  by (cases xs; cases n) simp_all

text \<open>The state after an accepted entry, given the invariant.\<close>

lemma DFS_inv_accept:
  assumes inv: "DFS_inv succ start v" and top: "states_to_expand v = (s, d, a) # rest"
    and new: "s \<notin> visited_states v"
  shows "\<exists>v'. accept s d a (v\<lparr>states_to_expand := rest\<rparr>) = Inr v' \<and>
           states_to_expand v' = rest \<and>
           solution v' = take (nat d) (solution v) @ [a] \<and>
           path v' = take (nat d) (path v) @ [s] \<and>
           int (length (path v')) = d + 1 \<and>
           visited_states v' = set (path v') \<and>
           distinct (path v') \<and>
           hd (path v') = start \<and>
           successively (edge succ) (path v')"
proof -
  from inv have len: "length (solution v) = length (path v)" and vis: "visited_states v = set (path v)"
    and dist: "distinct (path v)" and hd: "path v = [] \<or> hd (path v) = start"
    and succ: "successively (edge succ) (path v)"
    by (simp_all add: DFS_inv_def)
  from inv top have d: "0 \<le> d" "d \<le> int (length (path v))"
    and par: "if d = 0 then s = start else edge succ (path v ! nat (d - 1)) s"
    by (simp_all add: DFS_inv_def)
  let ?v = "v\<lparr>states_to_expand := rest\<rparr>"
  let ?v' = "?v\<lparr>num_expanded_states := num_expanded_states ?v + 1,
            visited_states := insert s (set (take (nat d) (path ?v))),
            solution := take (nat d) (solution ?v) @ [a],
            path := take (nat d) (path ?v) @ [s]\<rparr>"
  have acc: "accept s d a ?v = Inr ?v'"
    by (rule accept_take) (use len vis dist d in simp_all)
  have l: "length (take (nat d) (path v)) = nat d" using d by simp
  have notin: "s \<notin> set (take (nat d) (path v))"
    using new vis by (auto dest: in_set_takeD)
  have h: "hd (take (nat d) (path v) @ [s]) = start"
  proof (cases "d = 0")
    case True
    with par show ?thesis by simp
  next
    case False
    with d have pos: "0 < nat d" and ne: "path v \<noteq> []" by auto
    with hd have "hd (take (nat d) (path v)) = start" by (simp add: hd_take_pos)
    moreover have "take (nat d) (path v) \<noteq> []" using pos ne by simp
    ultimately show ?thesis by simp
  qed
  have s: "successively (edge succ) (take (nat d) (path v) @ [s])"
  proof (cases "d = 0")
    case True
    then show ?thesis by simp
  next
    case False
    with d have pos: "0 < nat d" "nat d \<le> length (path v)" by auto
    have "nat d - 1 = nat (d - 1)" using d by simp
    then have "last (take (nat d) (path v)) = path v ! nat (d - 1)"
      using last_take_nth[OF pos] by simp
    with False par show ?thesis
      by (simp add: successively_append_iff successively_take[OF succ])
  qed
  show ?thesis
    using acc l notin h s d dist by (intro exI[of _ ?v']) simp
qed

lemma DFS_inv_step:
  assumes inv: "DFS_inv succ start v" and st: "DFS_step succ goal limit v = Inr (Continue v')"
  shows "DFS_inv succ start v'"
proof (cases "states_to_expand v")
  case Nil
  with st show ?thesis by (simp add: DFS_step_def)
next
  case (Cons e rest)
  obtain s d a where e: "e = (s, d, a)" by (cases e)
  note top = Cons[unfolded e]
  from inv top have sorted: "sorted_wrt (\<lambda>x y. fst (snd y) \<le> fst (snd x)) rest"
    and below: "\<And>y. y \<in> set rest \<Longrightarrow> fst (snd y) \<le> d"
    and ents: "list_all (\<lambda>(s, d, a). 0 \<le> d \<and> d \<le> int (length (path v)) \<and>
                 (if d = 0 then s = start else edge succ (path v ! nat (d - 1)) s)) rest"
    and d: "0 \<le> d" "d \<le> int (length (path v))"
    by (auto simp: DFS_inv_def)
  show ?thesis
  proof (cases "s \<in> visited_states v \<or> d > limit")
    case True
    with st top have "v' = v\<lparr>states_to_expand := rest\<rparr>" by (auto simp: DFS_step_def)
    with inv sorted ents show ?thesis by (simp add: DFS_inv_def list_all_iff split_def)
  next
    case False
    then have new: "s \<notin> visited_states v" by simp
    from DFS_inv_accept[OF inv top new] obtain v1 where
      acc: "accept s d a (v\<lparr>states_to_expand := rest\<rparr>) = Inr v1" and
      v1: "states_to_expand v1 = rest" "solution v1 = take (nat d) (solution v) @ [a]"
        "path v1 = take (nat d) (path v) @ [s]" "int (length (path v1)) = d + 1"
        "visited_states v1 = set (path v1)" "distinct (path v1)" "hd (path v1) = start"
        "successively (edge succ) (path v1)"
      by blast
    from st top False acc obtain succs where
      sc: "succ s = Inr succs" and
      v': "v' = v1\<lparr>states_to_expand := push_children d succs (states_to_expand v1)\<rparr>"
      by (auto simp: DFS_step_def ebind_Inr_iff split: if_splits)
    from inv have len: "length (solution v) = length (path v)" by (simp add: DFS_inv_def)
    let ?new = "rev (map (\<lambda>(act, child). (child, d + 1, Some act)) succs)"
    have stack: "states_to_expand v' = ?new @ rest"
      by (simp add: v' v1 push_children_rev)
    have newd: "\<And>x. x \<in> set ?new \<Longrightarrow> fst (snd x) = d + 1 \<and> edge succ s (fst x)"
      by (auto simp: edge_def sc intro: rev_image_eqI)
    have srt: "sorted_wrt (\<lambda>x y. fst (snd y) \<le> fst (snd x)) (?new @ rest)"
      unfolding sorted_wrt_append
    proof (intro conjI ballI)
      show "sorted_wrt (\<lambda>x y. fst (snd y) \<le> fst (snd x)) ?new"
        by (rule sorted_wrt_all) (use newd in auto)
      show "sorted_wrt (\<lambda>x y. fst (snd y) \<le> fst (snd x)) rest" by (rule sorted)
      fix x y assume "x \<in> set ?new" "y \<in> set rest"
      then show "fst (snd y) \<le> fst (snd x)" using newd[of x] below[of y] by simp
    qed
    have lp: "length (take (nat d) (path v)) = nat d" using d by simp
    have at_d: "path v1 ! nat d = s" using lp by (simp add: v1 nth_append)
    have ent_new: "list_all (\<lambda>(s, d, a). 0 \<le> d \<and> d \<le> int (length (path v1)) \<and>
                 (if d = 0 then s = start else edge succ (path v1 ! nat (d - 1)) s)) ?new"
      unfolding list_all_iff
    proof
      fix x assume x: "x \<in> set ?new"
      obtain s' d' a' where x': "x = (s', d', a')" by (cases x)
      from newd[OF x] x' have "d' = d + 1" "edge succ s s'" by simp_all
      then show "case x of (s, d, a) \<Rightarrow> 0 \<le> d \<and> d \<le> int (length (path v1)) \<and>
                 (if d = 0 then s = start else edge succ (path v1 ! nat (d - 1)) s)"
        using d v1(4) at_d by (simp add: x')
    qed
    have ent_old: "list_all (\<lambda>(s, d, a). 0 \<le> d \<and> d \<le> int (length (path v1)) \<and>
                 (if d = 0 then s = start else edge succ (path v1 ! nat (d - 1)) s)) rest"
      unfolding list_all_iff
    proof
      fix x assume x: "x \<in> set rest"
      obtain s' d' a' where x': "x = (s', d', a')" by (cases x)
      from ents x x' have o: "0 \<le> d'" "d' \<le> int (length (path v))"
        "if d' = 0 then s' = start else edge succ (path v ! nat (d' - 1)) s'"
        by (auto simp: list_all_iff)
      from below[OF x] x' have le: "d' \<le> d" by simp
      have "path v1 ! nat (d' - 1) = path v ! nat (d' - 1)" if "d' \<noteq> 0"
        using that o(1) le lp by (simp add: v1 nth_append)
      then show "case x of (s, d, a) \<Rightarrow> 0 \<le> d \<and> d \<le> int (length (path v1)) \<and>
                 (if d = 0 then s = start else edge succ (path v1 ! nat (d - 1)) s)"
        using o le v1(4) by (simp add: x')
    qed
    have same: "path v' = path v1" "solution v' = solution v1" "visited_states v' = visited_states v1"
      by (simp_all add: v')
    have l1: "length (solution v1) = length (path v1)" using len by (simp add: v1)
    show ?thesis
      unfolding DFS_inv_def stack same
      using v1(5-8) l1 srt ent_new ent_old by simp
  qed
qed

lemma DFS_reachable_inv: "DFS_reachable succ goal limit start v \<Longrightarrow> DFS_inv succ start v"
  by (induction rule: DFS_reachable.induct) (auto intro: DFS_inv_initial DFS_inv_step)

text \<open>
  Claim C6. Whenever the loop pops an entry \<open>(s, d, a)\<close> that it accepts (\<open>s\<close> not visited,
  \<open>d\<close> within the limit), accepting it raises nothing and leaves the path equal to the
  first \<open>d\<close> states of the previous path followed by \<open>s\<close>: a path of \<open>d + 1\<close> distinct
  states from the start state to \<open>s\<close> along successor edges. The visited set is exactly
  the set of these states, so every state of an abandoned deeper branch has been removed
  from it.
\<close>

theorem DFS_visited_is_current_path:
  assumes "DFS_reachable succ goal limit start v" and "states_to_expand v = (s, d, a) # rest"
    and "s \<notin> visited_states v" and "d \<le> limit"
  shows "\<exists>v'. accept s d a (v\<lparr>states_to_expand := rest\<rparr>) = Inr v' \<and>
           path v' = take (nat d) (path v) @ [s] \<and>
           int (length (path v')) = d + 1 \<and>
           visited_states v' = set (path v') \<and>
           distinct (path v') \<and>
           hd (path v') = start \<and>
           successively (edge succ) (path v')"
  using DFS_inv_accept[OF DFS_reachable_inv[OF assms(1)] assms(2,3)] by blast

lemma run8: "DFS_run (successor puzzle2) (goal_test puzzle2) 1 8 (DFS_initial two_away) = Some after_branch"
  by code_simp


lemma after_branch_top:
  "states_to_expand after_branch =
     (swapped two_away ((0, 1), (1, 1)), 1, Some ((0, 1), (1, 1))) #
       map (\<lambda>a. (swapped two_away a, 1, Some a))
         [((0, 1), (1, 0)), ((0, 0), (1, 1)), ((0, 0), (1, 0)), ((0, 0), (0, 1))]"
  by (simp add: after_branch_def)

lemma after_branch_new: "swapped two_away ((0, 1), (1, 1)) \<notin> visited_states after_branch"
  by code_simp

lemma after_branch_path: "path after_branch = [two_away, swapped two_away ((1, 0), (1, 1))]"
  by (simp add: after_branch_def)

theorem DFS_visited_is_current_path_witness:
  "DFS_reachable (successor puzzle2) (goal_test puzzle2) 1 two_away after_branch \<and>
   states_to_expand after_branch =
     (swapped two_away ((0, 1), (1, 1)), 1, Some ((0, 1), (1, 1))) #
       map (\<lambda>a. (swapped two_away a, 1, Some a))
         [((0, 1), (1, 0)), ((0, 0), (1, 1)), ((0, 0), (1, 0)), ((0, 0), (0, 1))] \<and>
   swapped two_away ((0, 1), (1, 1)) \<notin> visited_states after_branch \<and>
   (1::int) \<le> 1 \<and>
   path after_branch = [two_away, swapped two_away ((1, 0), (1, 1))] \<and>
   (\<exists>v'. accept (swapped two_away ((0, 1), (1, 1))) 1 (Some ((0, 1), (1, 1)))
            (after_branch\<lparr>states_to_expand :=
               map (\<lambda>a. (swapped two_away a, 1, Some a))
                 [((0, 1), (1, 0)), ((0, 0), (1, 1)), ((0, 0), (1, 0)), ((0, 0), (0, 1))]\<rparr>) = Inr v' \<and>
      path v' = [two_away, swapped two_away ((0, 1), (1, 1))] \<and>
      int (length (path v')) = 2 \<and>
      visited_states v' = {two_away, swapped two_away ((0, 1), (1, 1))} \<and>
      distinct (path v') \<and>
      hd (path v') = two_away \<and>
      successively (edge (successor puzzle2)) (path v'))"
proof -
  have r: "DFS_reachable (successor puzzle2) (goal_test puzzle2) 1 two_away after_branch"
    by (rule DFS_run_reachable[OF DFS_reachable.initial run8])
  show ?thesis
    using DFS_visited_is_current_path[OF r after_branch_top after_branch_new]
      r after_branch_top after_branch_new
    by (auto simp: after_branch_path)
qed

section \<open>Duplicate suppression in the A* engine\<close>

lemma astar_run_reachable:
  "astar_reachable P start v \<Longrightarrow> astar_run P k v = Some v' \<Longrightarrow> astar_reachable P start v'"
proof (induction k arbitrary: v)
  case 0
  then show ?case by simp
next
  case (Suc k)
  from Suc.prems(2) obtain v1 where s: "astar_step P v = Inr (Next v1)"
    and r: "astar_run P k v1 = Some v'"
    by (auto split: sum.splits astar_outcome.splits)
  from Suc.IH[OF astar_reachable.step[OF Suc.prems(1) s] r] show ?case .
qed

lemma astar_step_Next:
  assumes "astar_step P v = Inr (Next v')"
  shows "\<exists>f g s p a heap. heappop (entry_lt P) (frontier v) = Inr ((f, g, s, p, a), heap) \<and>
           (if s \<in> visited v then v' = v\<lparr>frontier := heap\<rparr>
            else num_expanded v' = num_expanded v + 1 \<and> visited v' = insert s (visited v) \<and>
                 expanded_states v' = expanded_states v @ [(p, a)])"
proof -
  from assms have ne: "frontier v \<noteq> []" by (auto simp: astar_step_def)
  with assms obtain e heap where pop: "heappop (entry_lt P) (frontier v) = Inr (e, heap)"
    by (auto simp: astar_step_def ebind_Inr_iff)
  obtain f g s p a where e: "e = (f, g, s, p, a)" by (cases e)
  show ?thesis
  proof (cases "s \<in> visited v")
    case True
    with assms ne pop e have "v' = v\<lparr>frontier := heap\<rparr>" by (simp add: astar_step_def)
    with True pop e show ?thesis by auto
  next
    case False
    with assms ne pop e show ?thesis
      by (auto simp: astar_step_def ebind_Inr_iff Let_def split: if_splits)
  qed
qed

lemma astar_inv_initial: "astar_inv (astar_initial start)"
  by (simp add: astar_inv_def astar_initial_def)

lemma astar_inv_step:
  assumes "astar_inv v" "astar_step P v = Inr (Next v')"
  shows "astar_inv v'"
proof -
  from astar_step_Next[OF assms(2)] obtain f g s p a heap where
    c: "if s \<in> visited v then v' = v\<lparr>frontier := heap\<rparr>
        else num_expanded v' = num_expanded v + 1 \<and> visited v' = insert s (visited v) \<and>
             expanded_states v' = expanded_states v @ [(p, a)]"
    by blast
  show ?thesis
  proof (cases "s \<in> visited v")
    case True
    with c assms(1) show ?thesis by (simp add: astar_inv_def)
  next
    case False
    with c assms(1) show ?thesis by (simp add: astar_inv_def)
  qed
qed

lemma astar_reachable_inv: "astar_reachable P start v \<Longrightarrow> astar_inv v"
  by (induction rule: astar_reachable.induct) (auto intro: astar_inv_initial astar_inv_step)

lemma astar_step_visited:
  assumes "heappop (entry_lt P) (frontier v) = Inr ((f, g, s, p, a), heap)" "s \<in> visited v"
  shows "astar_step P v = Inr (Next (v\<lparr>frontier := heap\<rparr>))"
proof -
  from assms(1) have "frontier v \<noteq> []" by (auto simp: heappop_def)
  with assms show ?thesis by (simp add: astar_step_def)
qed

lemma astar_step_mono:
  assumes "astar_step P v = Inr (Next v')"
  shows "visited v \<subseteq> visited v'"
  using astar_step_Next[OF assms] by (auto split: if_splits)

text \<open>
  Claim C4. At every iteration of a run of the A* search the expansion count equals the
  number of visited states and the number of recorded nodes, so no state is counted
  twice. An iteration whose popped entry carries a visited state changes the frontier
  only: the entry is not counted, not recorded and not marked, and the result does not
  depend on \<open>goal_test\<close> or \<open>successor\<close>. Every other continuing iteration adds one state
  that was not visited before; the visited set never shrinks.
\<close>

theorem Astar_no_duplicate_expansion:
  assumes "astar_reachable P start v"
  shows "finite (visited v) \<and> num_expanded v = int (card (visited v)) \<and>
         int (length (expanded_states v)) = num_expanded v \<and>
         (\<forall>f g s p a heap.
            heappop (entry_lt P) (frontier v) = Inr ((f, g, s, p, a), heap) \<and> s \<in> visited v \<longrightarrow>
            astar_step P v = Inr (Next (v\<lparr>frontier := heap\<rparr>))) \<and>
         (\<forall>v'. astar_step P v = Inr (Next v') \<longrightarrow>
            visited v \<subseteq> visited v' \<and>
            (num_expanded v' = num_expanded v \<and> visited v' = visited v \<and>
               expanded_states v' = expanded_states v \<or>
             (\<exists>s. s \<notin> visited v \<and> visited v' = insert s (visited v) \<and>
                  num_expanded v' = num_expanded v + 1)))"
proof -
  have 1: "finite (visited v) \<and> num_expanded v = int (card (visited v)) \<and>
         int (length (expanded_states v)) = num_expanded v"
    using astar_reachable_inv[OF assms] by (simp add: astar_inv_def)
  have 2: "astar_step P v = Inr (Next (v\<lparr>frontier := heap\<rparr>))"
    if "heappop (entry_lt P) (frontier v) = Inr ((f, g, s, p, a), heap) \<and> s \<in> visited v"
    for f g s p a heap
    using that by (intro astar_step_visited[of P v f g s p a heap]) simp_all
  have 3: "visited v \<subseteq> visited v' \<and>
            (num_expanded v' = num_expanded v \<and> visited v' = visited v \<and>
               expanded_states v' = expanded_states v \<or>
             (\<exists>s. s \<notin> visited v \<and> visited v' = insert s (visited v) \<and>
                  num_expanded v' = num_expanded v + 1))"
    if st: "astar_step P v = Inr (Next v')" for v'
  proof -
    from astar_step_Next[OF st] obtain f g s p a heap where
      c: "if s \<in> visited v then v' = v\<lparr>frontier := heap\<rparr>
        else num_expanded v' = num_expanded v + 1 \<and> visited v' = insert s (visited v) \<and>
             expanded_states v' = expanded_states v @ [(p, a)]"
      by blast
    show ?thesis
    proof (cases "s \<in> visited v")
      case True
      with c show ?thesis by simp
    next
      case False
      with c show ?thesis by auto
    qed
  qed
  from 1 2 3 show ?thesis by blast
qed

lemma run1: "astar_run loop_problem 1 (astar_initial 0) = Some revisit"
  by code_simp

lemma pop_revisit:
  "heappop (entry_lt loop_problem) (frontier revisit) = Inr ((Finite 2, 2, 0, 0, Some 7), [])"
  by code_simp

lemma step_revisit: "astar_step loop_problem revisit = Inr (Next (revisit\<lparr>frontier := []\<rparr>))"
  by code_simp

theorem Astar_no_duplicate_expansion_witness:
  "astar_reachable loop_problem 0 revisit \<and>
   heappop (entry_lt loop_problem) (frontier revisit) = Inr ((Finite 2, 2, 0, 0, Some 7), []) \<and>
   (0::int) \<in> visited revisit \<and>
   astar_step loop_problem revisit = Inr (Next (revisit\<lparr>frontier := []\<rparr>)) \<and>
   finite (visited revisit) \<and> num_expanded revisit = int (card (visited revisit)) \<and>
   int (length (expanded_states revisit)) = num_expanded revisit \<and>
   visited revisit \<subseteq> visited (revisit\<lparr>frontier := []\<rparr>) \<and>
   num_expanded (revisit\<lparr>frontier := []\<rparr>) = 1 \<and>
   Astar_search loop_problem 0 = Some (Inr (None, Infinity, 1))"
proof -
  have r: "astar_reachable loop_problem 0 revisit"
    by (rule astar_run_reachable[OF astar_reachable.initial run1])
  have v: "(0::int) \<in> visited revisit" by (simp add: revisit_def)
  have s: "Astar_search loop_problem 0 = Some (Inr (None, Infinity, 1))" by code_simp
  from Astar_no_duplicate_expansion[OF r] pop_revisit v
  have "astar_step loop_problem revisit = Inr (Next (revisit\<lparr>frontier := []\<rparr>))" by blast
  with Astar_no_duplicate_expansion[OF r] r pop_revisit v s show ?thesis
    by (simp add: revisit_def)
qed

end
